theory Spec2Isabelle
  imports Main "HOL-Library.AList"
begin

section \<open>Data model of Context\_Trees.tsx\<close>

text \<open>
  A conversation node as the layout reads it: \<open>id\<close>, \<open>parentId\<close> (\<open>string | null\<close>) and
  \<open>timestamp\<close> (read through \<open>getTime()\<close>, milliseconds).  The fields \<open>prompt\<close>,
  \<open>response\<close> and \<open>branchLabel\<close> are never read by the layout functions and are left out.
  The field \<open>id\<close> is called \<open>ident\<close> because \<open>id\<close> is the identity function of HOL.
\<close>

record ConversationNode =
  ident :: string
  parentId :: "string option"
  timestamp :: int

record TreeData =
  nodes :: "ConversationNode list"
  activeNodeId :: "string option"

text \<open>
  A position \<open>{x, y}\<close> is a pair; coordinates are integers (every coordinate the layout
  writes is a sum of the integer constants below).  \<open>lockedPositions\<close> is a JavaScript
  \<open>Map\<close>: it iterates in insertion order, \<open>set\<close> on a present key keeps the key's place,
  \<open>set\<close> on a new key appends.  That is an association list with \<open>AList.update\<close>.
  Every object stored in the map is stored under one key only, so updating \<open>pos.x\<close> in
  place is \<open>AList.map_entry\<close> on that key.
\<close>

type_synonym position = "int \<times> int"
type_synonym store = "(string \<times> position) list"

definition nodeWidth :: int where "nodeWidth = 380"
definition nodeHeight :: int where "nodeHeight = 140"
definition verticalSpacing :: int where "verticalSpacing = 180"
definition horizontalSpacing :: int where "horizontalSpacing = 450"
definition minHorizontalGap :: int where "minHorizontalGap = 50"

definition wouldOverlap :: "position \<Rightarrow> position \<Rightarrow> bool" where
  "wouldOverlap pos1 pos2 =
     (\<bar>fst pos1 - fst pos2\<bar> < nodeWidth + minHorizontalGap \<and>
      \<bar>snd pos1 - snd pos2\<bar> < nodeHeight + 20)"

text \<open>\<open>!node.parentId\<close>: \<open>null\<close> and the empty string are both falsy.\<close>

definition falsy :: "string option \<Rightarrow> bool" where
  "falsy p = (p = None \<or> p = Some [])"

section \<open>Graph queries\<close>

text \<open>
  \<open>getAllDescendants\<close> recurses through the children of a node, pre-order.  On a cyclic
  parent relation the JavaScript recursion never returns (it ends in a RangeError).  The
  model counts the call depth: a chain of calls on an acyclic relation passes through
  pairwise different nodes of \<open>allNodes\<close>, so depth \<open>length allNodes + 1\<close> is never
  reached there, and \<open>None\<close> stands for the call that does not return.
\<close>

fun descendants :: "nat \<Rightarrow> string \<Rightarrow> ConversationNode list \<Rightarrow> string list option" where
  "descendants 0 nodeId allNodes = None"
| "descendants (Suc k) nodeId allNodes =
     map_option concat
       (those (map (\<lambda>child. map_option (Cons (ident child)) (descendants k (ident child) allNodes))
                   (filter (\<lambda>n. parentId n = Some nodeId) allNodes)))"

definition getAllDescendants :: "string \<Rightarrow> ConversationNode list \<Rightarrow> string list option" where
  "getAllDescendants nodeId allNodes = descendants (Suc (length allNodes)) nodeId allNodes"

section \<open>Branch mover\<close>

definition shiftX :: "int \<Rightarrow> position \<Rightarrow> position" where
  "shiftX a pos = (fst pos + a, snd pos)"

definition shiftIds :: "int \<Rightarrow> string list \<Rightarrow> store \<Rightarrow> store" where
  "shiftIds a nodesToShift s = fold (\<lambda>i. AList.map_entry i (shiftX a)) nodesToShift s"

definition shiftBranchRight :: "string \<Rightarrow> int \<Rightarrow> ConversationNode list \<Rightarrow> store \<Rightarrow> store option" where
  "shiftBranchRight nodeId shiftAmount allNodes s =
     map_option (\<lambda>ds. shiftIds shiftAmount (nodeId # ds) s) (getAllDescendants nodeId allNodes)"

definition shiftBranchLeft :: "string \<Rightarrow> int \<Rightarrow> ConversationNode list \<Rightarrow> store \<Rightarrow> store option" where
  "shiftBranchLeft nodeId shiftAmount allNodes s =
     map_option (\<lambda>ds. shiftIds (- shiftAmount) (nodeId # ds) s) (getAllDescendants nodeId allNodes)"

definition getRightmostDescendantX :: "string \<Rightarrow> ConversationNode list \<Rightarrow> store \<Rightarrow> int option" where
  "getRightmostDescendantX nodeId allNodes s =
     map_option
       (\<lambda>ds. fold (\<lambda>descId rightmostX.
                     case map_of s descId of
                       None \<Rightarrow> rightmostX
                     | Some pos \<Rightarrow> if fst pos > rightmostX then fst pos else rightmostX)
                  ds (case map_of s nodeId of None \<Rightarrow> 0 | Some pos \<Rightarrow> fst pos))
       (getAllDescendants nodeId allNodes)"

section \<open>Ancestor-sibling displacement\<close>

text \<open>
  The \<open>forEach\<close> over the siblings of one ancestor.  \<open>parentPos\<close> is the object stored
  under the parent's id, read again at every comparison (\<open>parentPos.x\<close> is live).
\<close>

fun shiftSiblings :: "string \<Rightarrow> ConversationNode list \<Rightarrow> ConversationNode list \<Rightarrow> store \<Rightarrow> store option" where
  "shiftSiblings parentKey [] allNodes s = Some s"
| "shiftSiblings parentKey (sibling # rest) allNodes s =
     (case (map_of s (ident sibling), map_of s parentKey) of
        (Some siblingPos, Some parentPos) \<Rightarrow>
          if fst siblingPos > fst parentPos
          then (case shiftBranchRight (ident sibling) horizontalSpacing allNodes s of
                  None \<Rightarrow> None
                | Some s' \<Rightarrow> shiftSiblings parentKey rest allNodes s')
          else shiftSiblings parentKey rest allNodes s
      | _ \<Rightarrow> shiftSiblings parentKey rest allNodes s)"

text \<open>
  The \<open>while (currentNode.parentId)\<close> loop.  On a cyclic parent chain it never ends; the
  walk passes through pairwise different nodes otherwise, so the counter starts at
  \<open>length allNodes + 1\<close> and \<open>None\<close> is the loop that does not end.
\<close>

fun ancestorWalk :: "nat \<Rightarrow> ConversationNode \<Rightarrow> string \<Rightarrow> ConversationNode list \<Rightarrow> store \<Rightarrow> store option" where
  "ancestorWalk 0 currentNode parentKey allNodes s = None"
| "ancestorWalk (Suc k) currentNode parentKey allNodes s =
     (case parentId currentNode of
        None \<Rightarrow> Some s
      | Some p \<Rightarrow>
          if p = [] then Some s
          else (case find (\<lambda>n. ident n = p) allNodes of
                  None \<Rightarrow> Some s
                | Some ancestor \<Rightarrow>
                    (case shiftSiblings parentKey
                            (filter (\<lambda>n. parentId n = parentId ancestor \<and> ident n \<noteq> ident ancestor) allNodes)
                            allNodes s of
                       None \<Rightarrow> None
                     | Some s' \<Rightarrow> ancestorWalk k ancestor parentKey allNodes s')))"

definition shiftAllAncestorSiblings :: "string \<Rightarrow> ConversationNode list \<Rightarrow> store \<Rightarrow> store option" where
  "shiftAllAncestorSiblings nodeId allNodes s =
     (case find (\<lambda>n. ident n = nodeId) allNodes of
        None \<Rightarrow> Some s
      | Some node \<Rightarrow>
          (case parentId node of
             None \<Rightarrow> Some s
           | Some p \<Rightarrow>
               if p = [] then Some s
               else (case find (\<lambda>n. ident n = p) allNodes of
                       None \<Rightarrow> Some s
                     | Some parent \<Rightarrow>
                         (case map_of s (ident parent) of
                            None \<Rightarrow> Some s
                          | Some parentPos \<Rightarrow>
                              ancestorWalk (Suc (length allNodes)) node (ident parent) allNodes s))))"

section \<open>Layout driver\<close>

text \<open>One \<open>for ... of lockedPositions.entries()\<close> pass; no key is added or removed during it.\<close>

fun collisionPass :: "string \<Rightarrow> position \<Rightarrow> ConversationNode list \<Rightarrow> string list \<Rightarrow> store \<Rightarrow> bool \<Rightarrow> (store \<times> bool) option" where
  "collisionPass nodeKey desiredPos allNodes [] s hasOverlap = Some (s, hasOverlap)"
| "collisionPass nodeKey desiredPos allNodes (existingNodeId # rest) s hasOverlap =
     (case map_of s existingNodeId of
        None \<Rightarrow> collisionPass nodeKey desiredPos allNodes rest s hasOverlap
      | Some existingPos \<Rightarrow>
          if existingNodeId \<noteq> nodeKey \<and> wouldOverlap desiredPos existingPos
          then (case shiftBranchRight existingNodeId horizontalSpacing allNodes s of
                  None \<Rightarrow> None
                | Some s' \<Rightarrow> collisionPass nodeKey desiredPos allNodes rest s' True)
          else collisionPass nodeKey desiredPos allNodes rest s hasOverlap)"

text \<open>\<open>while (hasOverlap && iterations < maxIterations)\<close>: the counter is what is left of the 50.\<close>

fun resolveCollisions :: "nat \<Rightarrow> string \<Rightarrow> position \<Rightarrow> ConversationNode list \<Rightarrow> store \<Rightarrow> store option" where
  "resolveCollisions 0 nodeKey desiredPos allNodes s = Some s"
| "resolveCollisions (Suc k) nodeKey desiredPos allNodes s =
     (case collisionPass nodeKey desiredPos allNodes (map fst s) s False of
        None \<Rightarrow> None
      | Some (s', hasOverlap) \<Rightarrow>
          if hasOverlap then resolveCollisions k nodeKey desiredPos allNodes s' else Some s')"

definition maxIterations :: nat where "maxIterations = 50"

text \<open>\<open>Array.prototype.findIndex\<close>: the index of the first match, \<open>-1\<close> when there is none.\<close>

fun findIndex :: "('a \<Rightarrow> bool) \<Rightarrow> 'a list \<Rightarrow> int" where
  "findIndex P [] = - 1"
| "findIndex P (a # as) =
     (if P a then 0 else (let r = findIndex P as in if r = - 1 then - 1 else r + 1))"

definition siblingIndexOf :: "ConversationNode \<Rightarrow> ConversationNode list \<Rightarrow> int" where
  "siblingIndexOf node sortedNodes =
     findIndex (\<lambda>n. ident n = ident node) (filter (\<lambda>n. parentId n = parentId node) sortedNodes)"

text \<open>The candidate of a branch (\<open>siblingIndex > 0\<close>), lines 209 to 220.\<close>

definition branchCandidate :: "ConversationNode \<Rightarrow> string \<Rightarrow> position \<Rightarrow> ConversationNode list \<Rightarrow> store \<Rightarrow> position option" where
  "branchCandidate node p parentPos sortedNodes s =
     (case (case find (\<lambda>n. ident n = p) sortedNodes of
              None \<Rightarrow> Some (fst parentPos)
            | Some parent \<Rightarrow> getRightmostDescendantX (ident parent) sortedNodes s) of
        None \<Rightarrow> None
      | Some rightmostDescendantX \<Rightarrow>
          Some (max (fst parentPos + siblingIndexOf node sortedNodes * horizontalSpacing)
                    (rightmostDescendantX + horizontalSpacing),
                snd parentPos + verticalSpacing))"

text \<open>The body of the placing \<open>forEach\<close> for one node, lines 176 to 244.\<close>

definition placeNode :: "ConversationNode list \<Rightarrow> ConversationNode \<Rightarrow> store \<Rightarrow> store option" where
  "placeNode sortedNodes node s =
     (if map_of s (ident node) \<noteq> None then Some s
      else case parentId node of
        None \<Rightarrow> Some (AList.update (ident node) (0, 0) s)
      | Some p \<Rightarrow>
          if p = [] then Some (AList.update (ident node) (0, 0) s)
          else (case map_of s p of
                  None \<Rightarrow> Some s
                | Some parentPos \<Rightarrow>
                    if siblingIndexOf node sortedNodes = 0
                    then (case resolveCollisions maxIterations (ident node)
                                 (fst parentPos, snd parentPos + verticalSpacing) sortedNodes s of
                            None \<Rightarrow> None
                          | Some s' \<Rightarrow>
                              Some (AList.update (ident node) (fst parentPos, snd parentPos + verticalSpacing) s'))
                    else (case branchCandidate node p parentPos sortedNodes s of
                            None \<Rightarrow> None
                          | Some desiredPos \<Rightarrow>
                              (case shiftAllAncestorSiblings (ident node) sortedNodes s of
                                 None \<Rightarrow> None
                               | Some s1 \<Rightarrow>
                                   (case resolveCollisions maxIterations (ident node) desiredPos sortedNodes s1 of
                                      None \<Rightarrow> None
                                    | Some s2 \<Rightarrow> Some (AList.update (ident node) desiredPos s2))))))"

fun placeAll :: "ConversationNode list \<Rightarrow> ConversationNode list \<Rightarrow> store \<Rightarrow> store option" where
  "placeAll sortedNodes [] s = Some s"
| "placeAll sortedNodes (node # rest) s =
     (case placeNode sortedNodes node s of
        None \<Rightarrow> None
      | Some s' \<Rightarrow> placeAll sortedNodes rest s')"

text \<open>\<open>Array.prototype.sort\<close> is stable, as \<open>sort_key\<close> is.\<close>

definition sortedNodesOf :: "TreeData \<Rightarrow> ConversationNode list" where
  "sortedNodesOf treeData = sort_key timestamp (nodes treeData)"

text \<open>The effect of \<open>layoutNodes\<close> on \<open>lockedPositions\<close>.\<close>

definition layoutPass :: "TreeData \<Rightarrow> store \<Rightarrow> store option" where
  "layoutPass treeData s = placeAll (sortedNodesOf treeData) (sortedNodesOf treeData) s"

text \<open>
  \<open>isNodeInActivePath\<close>: the walk from the active node up the parent links.  \<open>nodeMap\<close> is
  built from \<open>treeData.nodes\<close>, a later node of the same id replacing an earlier one.  The
  loop does not end on a cyclic chain; otherwise it passes through pairwise different
  nodes and makes at most one step more, so the counter starts at \<open>length nodes + 2\<close>.
\<close>

fun activePathWalk :: "nat \<Rightarrow> string option \<Rightarrow> string \<Rightarrow> ConversationNode list \<Rightarrow> bool option" where
  "activePathWalk 0 currentId nodeId ns = None"
| "activePathWalk (Suc k) currentId nodeId ns =
     (case currentId of
        None \<Rightarrow> Some False
      | Some c \<Rightarrow>
          if c = [] then Some False
          else if c = nodeId then Some True
          else activePathWalk k
                 (case find (\<lambda>n. ident n = c) (rev ns) of None \<Rightarrow> None | Some node \<Rightarrow> parentId node)
                 nodeId ns)"

definition isNodeInActivePath :: "string \<Rightarrow> TreeData \<Rightarrow> bool option" where
  "isNodeInActivePath nodeId treeData =
     activePathWalk (length (nodes treeData) + 2) (activeNodeId treeData) nodeId (nodes treeData)"

record FlowNode =
  nodeKey :: string
  posX :: int
  posY :: int
  isActive :: bool
  isInActivePath :: bool

record FlowEdge =
  source :: string
  target :: string
  animated :: bool

text \<open>
  The emitted node of line 247 to 268: the stored position, or \<open>{x: 0, y: 0}\<close> for a node
  without one, with \<open>x\<close> moved left by half the node width.
\<close>

definition emitNode :: "TreeData \<Rightarrow> store \<Rightarrow> ConversationNode \<Rightarrow> FlowNode option" where
  "emitNode treeData s node =
     (let position = (case map_of s (ident node) of None \<Rightarrow> (0, 0) | Some pos \<Rightarrow> pos)
      in map_option
           (\<lambda>inPath. \<lparr>nodeKey = ident node,
                       posX = fst position - nodeWidth div 2,
                       posY = snd position,
                       isActive = (Some (ident node) = activeNodeId treeData),
                       isInActivePath = inPath\<rparr>)
           (isNodeInActivePath (ident node) treeData))"

definition edgesOf :: "TreeData \<Rightarrow> FlowEdge list" where
  "edgesOf treeData =
     concat (map (\<lambda>node. case parentId node of
                           None \<Rightarrow> []
                         | Some p \<Rightarrow>
                             if p = [] then []
                             else [\<lparr>source = p, target = ident node,
                                    animated = (activeNodeId treeData = Some (ident node))\<rparr>])
                 (sortedNodesOf treeData))"

text \<open>\<open>layoutNodes\<close>: the renderable graph and the position store it leaves behind.\<close>

definition layoutNodes :: "TreeData \<Rightarrow> store \<Rightarrow> ((FlowNode list \<times> FlowEdge list) \<times> store) option" where
  "layoutNodes treeData s =
     (case layoutPass treeData s of
        None \<Rightarrow> None
      | Some s' \<Rightarrow>
          (case those (map (emitNode treeData s') (sortedNodesOf treeData)) of
             None \<Rightarrow> None
           | Some flowNodes \<Rightarrow> Some ((flowNodes, edgesOf treeData), s')))"

section \<open>Mutations of the tree and of the store outside the layout pass\<close>

text \<open>\<open>onNodesChange\<close>, one change of type \<open>position\<close>: the drag writes the store directly.\<close>

definition dragNode :: "string \<Rightarrow> position \<Rightarrow> store \<Rightarrow> store" where
  "dragNode nodeId newPosition s =
     AList.update nodeId (fst newPosition + nodeWidth div 2, snd newPosition) s"

text \<open>
  \<open>handleDeleteNode\<close>, the state updater of lines 556 to 594, on the tree and the store.
  \<open>None\<close> is the call in which \<open>getAllDescendants\<close> does not return.
\<close>

definition handleDeleteNode :: "string \<Rightarrow> TreeData \<Rightarrow> store \<Rightarrow> (TreeData \<times> store) option" where
  "handleDeleteNode nodeId prev s =
     (case find (\<lambda>n. ident n = nodeId) (nodes prev) of
        None \<Rightarrow> Some (prev, s)
      | Some nodeToDelete \<Rightarrow>
          (case getAllDescendants nodeId (nodes prev) of
             None \<Rightarrow> None
           | Some ds \<Rightarrow>
               (let idsToDelete = nodeId # ds;
                    remainingNodes = filter (\<lambda>n. ident n \<notin> set idsToDelete) (nodes prev);
                    s1 = fold AList.delete idsToDelete s;
                    rootNode = find (\<lambda>n. falsy (parentId n)) remainingNodes;
                    restored =
                      (case rootNode of
                         None \<Rightarrow> []
                       | Some r \<Rightarrow>
                           if ident r = [] then []
                           else (case map_of s1 (ident r) of
                                   None \<Rightarrow> []
                                 | Some rootPosition \<Rightarrow> [(ident r, rootPosition)]));
                    newActiveNodeId =
                      (if (case activeNodeId prev of None \<Rightarrow> [] | Some a \<Rightarrow> a) \<in> set idsToDelete
                       then (if remainingNodes \<noteq> [] then Some (ident (last remainingNodes)) else None)
                       else activeNodeId prev)
                in Some (prev\<lparr>nodes := remainingNodes, activeNodeId := newActiveNodeId\<rparr>, restored))))"

text \<open>
  A snapshot grown one node at a time, \<open>layoutNodes\<close> running after each insertion (the
  \<open>useEffect\<close> on \<open>treeData\<close>); the inserted node becomes the active one, as in
  \<open>handleSendMessage\<close>.
\<close>

fun layoutAfterEach :: "ConversationNode list \<Rightarrow> ConversationNode list \<Rightarrow> store \<Rightarrow> store option" where
  "layoutAfterEach present [] s = Some s"
| "layoutAfterEach present (n # rest) s =
     (case layoutPass \<lparr>nodes = present @ [n], activeNodeId = Some (ident n)\<rparr> s of
        None \<Rightarrow> None
      | Some s' \<Rightarrow> layoutAfterEach (present @ [n]) rest s')"

section \<open>Well-formed snapshots\<close>

text \<open>
  Identifiers are unique and no node's parent is the node itself or a later node of the
  list: parents come first, which excludes cycles.  A snapshot grown by insertion under
  existing nodes is of this kind.
\<close>

fun parentsFirst :: "ConversationNode list \<Rightarrow> bool" where
  "parentsFirst [] = True"
| "parentsFirst (n # ns) =
     (ident n \<notin> set (map ident ns) \<and>
      list_all (\<lambda>m. parentId n \<noteq> Some (ident m)) (n # ns) \<and>
      parentsFirst ns)"

section \<open>Auxiliary notions for the proofs\<close>

definition children :: "ConversationNode list \<Rightarrow> string \<Rightarrow> ConversationNode list" where
  "children ns i = filter (\<lambda>n. parentId n = Some i) ns"

text \<open>The descendant list of a well-formed snapshot, where \<open>getAllDescendants\<close> returns.\<close>

definition descs :: "ConversationNode list \<Rightarrow> string \<Rightarrow> string list" where
  "descs ns i = (case getAllDescendants i ns of None \<Rightarrow> [] | Some ds \<Rightarrow> ds)"

text \<open>How often a new last node \<open>l\<close> enters the descendant list \<open>ds\<close> of \<open>i\<close>.\<close>

definition extra :: "ConversationNode \<Rightarrow> string \<Rightarrow> string list \<Rightarrow> nat" where
  "extra l i ds = (case parentId l of None \<Rightarrow> 0 | Some p \<Rightarrow> count_list (i # ds) p)"

text \<open>A small tree for the examples: root \<open>R\<close> with children \<open>A\<close>, \<open>B\<close>, and \<open>A1\<close> under \<open>A\<close>.\<close>

definition exampleNodes :: "ConversationNode list" where
  "exampleNodes =
     [\<lparr>ident = ''R'', parentId = None, timestamp = 0\<rparr>,
      \<lparr>ident = ''A'', parentId = Some ''R'', timestamp = 1\<rparr>,
      \<lparr>ident = ''B'', parentId = Some ''R'', timestamp = 2\<rparr>,
      \<lparr>ident = ''A1'', parentId = Some ''A'', timestamp = 3\<rparr>]"

definition movedRight :: "store \<Rightarrow> store \<Rightarrow> bool" where
  "movedRight s s' =
     (\<forall>k p. map_of s k = Some p \<longrightarrow>
         (\<exists>m::nat. map_of s' k = Some (fst p + int m * horizontalSpacing, snd p)))"

definition shiftedRight :: "store \<Rightarrow> store \<Rightarrow> bool" where
  "shiftedRight s s' = (map fst s' = map fst s \<and> movedRight s s')"

definition exampleStore :: store where
  "exampleStore = [(''R'', (0, 0)), (''A'', (0, 180)), (''B'', (450, 180)), (''A1'', (0, 360))]"

definition exampleBranch :: TreeData where
  "exampleBranch = \<lparr>nodes = exampleNodes @ [\<lparr>ident = ''A2'', parentId = Some ''A'', timestamp = 4\<rparr>],
                     activeNodeId = Some ''A2''\<rparr>"

text \<open>
  The depth of a node: the number of parent links up to a node without parent
  (\<open>parentId\<close> null or empty, as the layout tests it).  Parents come first in a
  well-formed snapshot, so the parent is looked up among the earlier nodes.
\<close>

fun depthRev :: "ConversationNode list \<Rightarrow> string \<Rightarrow> nat" where
  "depthRev [] i = 0"
| "depthRev (n # earlier) i =
     (if ident n = i
      then (case parentId n of
              None \<Rightarrow> 0
            | Some p \<Rightarrow> if p = [] then 0 else Suc (depthRev earlier p))
      else depthRev earlier i)"

definition treeDepth :: "ConversationNode list \<Rightarrow> string \<Rightarrow> nat" where
  "treeDepth ns i = depthRev (rev ns) i"

text \<open>What a pass may do to the \<open>y\<close> coordinates: keep those it finds, and write a new one as
  \<open>0\<close> or as the parent's \<open>y\<close> plus \<open>verticalSpacing\<close>.\<close>

definition yWritten :: "ConversationNode list \<Rightarrow> store \<Rightarrow> string \<Rightarrow> position \<Rightarrow> bool" where
  "yWritten ns s' k pos' =
     (\<exists>n \<in> set ns. ident n = k \<and>
        (falsy (parentId n) \<and> snd pos' = 0 \<or>
         (\<exists>p pp. parentId n = Some p \<and> p \<noteq> [] \<and> map_of s' p = Some pp \<and>
                 snd pos' = snd pp + verticalSpacing)))"

definition yKept :: "ConversationNode list \<Rightarrow> store \<Rightarrow> store \<Rightarrow> bool" where
  "yKept ns s s' =
     ((\<forall>k pos. map_of s k = Some pos \<longrightarrow> (\<exists>x'. map_of s' k = Some (x', snd pos))) \<and>
      (\<forall>k pos'. map_of s k = None \<and> map_of s' k = Some pos' \<longrightarrow> yWritten ns s' k pos'))"

text \<open>Every entry belongs to a node of the snapshot and has \<open>y = depth * verticalSpacing\<close>.\<close>

definition depthInv :: "ConversationNode list \<Rightarrow> store \<Rightarrow> bool" where
  "depthInv ns s =
     (\<forall>k pos. map_of s k = Some pos \<longrightarrow>
        k \<in> ident ` set ns \<and> snd pos = int (treeDepth ns k) * verticalSpacing)"

definition danglingTree :: TreeData where
  "danglingTree = \<lparr>nodes = [\<lparr>ident = ''R'', parentId = None, timestamp = 0\<rparr>,
                            \<lparr>ident = ''D'', parentId = Some ''ghost'', timestamp = 1\<rparr>],
                   activeNodeId = Some ''D''\<rparr>"

text \<open>The branch of a node: the node and its descendants, as \<open>shiftBranchRight\<close> lists them.\<close>

definition branchIds :: "ConversationNode list \<Rightarrow> ConversationNode \<Rightarrow> string list" where
  "branchIds ns S = ident S # descs ns (ident S)"

text \<open>The siblings of a node as \<open>shiftAllAncestorSiblings\<close> filters them.\<close>

definition siblingsOf :: "ConversationNode list \<Rightarrow> ConversationNode \<Rightarrow> ConversationNode list" where
  "siblingsOf ns A = filter (\<lambda>n. parentId n = parentId A \<and> ident n \<noteq> ident A) ns"

text \<open>The ancestors met on the walk upward from a node, nearest first.\<close>

fun ancestorsUp :: "nat \<Rightarrow> ConversationNode list \<Rightarrow> ConversationNode \<Rightarrow> ConversationNode list" where
  "ancestorsUp 0 ns cur = []"
| "ancestorsUp (Suc k) ns cur =
     (case parentId cur of
        None \<Rightarrow> []
      | Some q \<Rightarrow>
          if q = [] then []
          else (case find (\<lambda>n. ident n = q) ns of
                  None \<Rightarrow> []
                | Some A \<Rightarrow> A # ancestorsUp k ns A))"

text \<open>A sibling is displaced when its \<open>x\<close> is greater than the \<open>x\<close> stored under \<open>p\<close>.\<close>

definition rightOf :: "store \<Rightarrow> string \<Rightarrow> ConversationNode \<Rightarrow> bool" where
  "rightOf s p S =
     (case (map_of s (ident S), map_of s p) of
        (Some siblingPos, Some parentPos) \<Rightarrow> fst parentPos < fst siblingPos
      | _ \<Rightarrow> False)"

text \<open>
  The siblings to displace when a branch is inserted under \<open>p\<close> as node \<open>w\<close>: for every
  ancestor of \<open>w\<close>, nearest first, its siblings that lie to the right of \<open>p\<close> in \<open>s\<close>.
\<close>

definition displacedSiblings :: "ConversationNode list \<Rightarrow> store \<Rightarrow> string \<Rightarrow> ConversationNode \<Rightarrow> ConversationNode list" where
  "displacedSiblings ns s p w =
     concat (map (\<lambda>A. filter (rightOf s p) (siblingsOf ns A)) (ancestorsUp (Suc (length ns)) ns w))"

fun walkList :: "string \<Rightarrow> ConversationNode list \<Rightarrow> ConversationNode list \<Rightarrow> store \<Rightarrow> store option" where
  "walkList p ns [] s = Some s"
| "walkList p ns (A # As) s =
     (case shiftSiblings p (siblingsOf ns A) ns s of
        None \<Rightarrow> None
      | Some s' \<Rightarrow> walkList p ns As s')"

definition wideNodes :: "ConversationNode list" where
  "wideNodes =
     [\<lparr>ident = ''R'', parentId = None, timestamp = 0\<rparr>,
      \<lparr>ident = ''A'', parentId = Some ''R'', timestamp = 1\<rparr>,
      \<lparr>ident = ''B'', parentId = Some ''R'', timestamp = 2\<rparr>,
      \<lparr>ident = ''C'', parentId = Some ''R'', timestamp = 3\<rparr>,
      \<lparr>ident = ''C1'', parentId = Some ''C'', timestamp = 4\<rparr>]"

definition wideStore :: store where
  "wideStore = [(''R'', (0, 0)), (''A'', (0, 180)), (''B'', (450, 180)), (''C'', (900, 180)), (''C1'', (900, 360))]"

text \<open>A key has an entry in the store.\<close>

definition placed :: "store \<Rightarrow> string \<Rightarrow> bool" where
  "placed s k = (map_of s k \<noteq> None)"

text \<open>
  A tree with two branches of depth two; its last node \<open>A2\<close> is the branch to insert, and
  \<open>deepStore\<close> is the layout of the nodes before it.
\<close>

definition deepNodes :: "ConversationNode list" where
  "deepNodes =
     [\<lparr>ident = ''R'', parentId = None, timestamp = 0\<rparr>,
      \<lparr>ident = ''A'', parentId = Some ''R'', timestamp = 1\<rparr>,
      \<lparr>ident = ''B'', parentId = Some ''R'', timestamp = 2\<rparr>,
      \<lparr>ident = ''A1'', parentId = Some ''A'', timestamp = 3\<rparr>,
      \<lparr>ident = ''B1'', parentId = Some ''B'', timestamp = 4\<rparr>,
      \<lparr>ident = ''A2'', parentId = Some ''A'', timestamp = 5\<rparr>]"

definition deepStore :: store where
  "deepStore = [(''R'', (0, 0)), (''A'', (0, 180)), (''B'', (450, 180)), (''A1'', (0, 360)), (''B1'', (450, 360))]"

text \<open>
  A tree snapshot: the first node is the only one without parent, every other node names
  a node of the snapshot as its parent.
\<close>

definition singleRoot :: "ConversationNode list \<Rightarrow> bool" where
  "singleRoot ns =
     (case ns of
        [] \<Rightarrow> True
      | r # rest \<Rightarrow>
          parentId r = None \<and>
          (\<forall>n \<in> set rest. \<exists>p. parentId n = Some p \<and> p \<noteq> [] \<and> p \<in> ident ` set ns))"

text \<open>The coordinates of the entry of a key (\<open>0\<close> when there is none).\<close>

definition xOf :: "store \<Rightarrow> string \<Rightarrow> int" where
  "xOf s k = (case map_of s k of None \<Rightarrow> 0 | Some pos \<Rightarrow> fst pos)"

definition yOf :: "store \<Rightarrow> string \<Rightarrow> int" where
  "yOf s k = (case map_of s k of None \<Rightarrow> 0 | Some pos \<Rightarrow> snd pos)"

text \<open>Placed descendants are not to the left of a placed ancestor, and below it.\<close>

definition rightOfParent :: "ConversationNode list \<Rightarrow> store \<Rightarrow> bool" where
  "rightOfParent ns s =
     (\<forall>i d. d \<in> set (descs ns i) \<and> placed s i \<and> placed s d \<longrightarrow> xOf s i \<le> xOf s d)"

definition belowParent :: "ConversationNode list \<Rightarrow> store \<Rightarrow> bool" where
  "belowParent ns s =
     (\<forall>i d. d \<in> set (descs ns i) \<and> placed s i \<and> placed s d \<longrightarrow>
        yOf s i + verticalSpacing \<le> yOf s d)"

text \<open>A placed first child is straight below its placed parent.\<close>

definition firstChildAligned :: "ConversationNode list \<Rightarrow> store \<Rightarrow> bool" where
  "firstChildAligned ns s =
     (\<forall>p c cs. children ns p = c # cs \<and> placed s p \<and> placed s (ident c) \<longrightarrow>
        xOf s (ident c) = xOf s p \<and> yOf s (ident c) = yOf s p + verticalSpacing)"

text \<open>
  The branch of an earlier sibling lies entirely to the left of the branch of a later one,
  \<open>horizontalSpacing\<close> apart at least.
\<close>

definition siblingsApart :: "ConversationNode list \<Rightarrow> store \<Rightarrow> bool" where
  "siblingsApart ns s =
     (\<forall>p i j u v. i < j \<and> j < length (children ns p) \<and>
        u \<in> set (branchIds ns (children ns p ! i)) \<and> v \<in> set (branchIds ns (children ns p ! j)) \<and>
        placed s u \<and> placed s v \<longrightarrow> xOf s u + horizontalSpacing \<le> xOf s v)"

text \<open>The invariant of insertion sessions on trees.\<close>

definition tidy :: "ConversationNode list \<Rightarrow> store \<Rightarrow> bool" where
  "tidy ns s =
     (distinct (map fst s) \<and> fst ` set s \<subseteq> ident ` set ns \<and> rightOfParent ns s \<and> belowParent ns s \<and>
      firstChildAligned ns s \<and> siblingsApart ns s)"

text \<open>A forest: two roots, each with one child.\<close>

definition twoRoots :: "ConversationNode list" where
  "twoRoots =
     [\<lparr>ident = ''r1'', parentId = None, timestamp = 0\<rparr>,
      \<lparr>ident = ''r2'', parentId = None, timestamp = 1\<rparr>,
      \<lparr>ident = ''a'', parentId = Some ''r1'', timestamp = 2\<rparr>,
      \<lparr>ident = ''b'', parentId = Some ''r2'', timestamp = 3\<rparr>]"

section \<open>Notions of the specification\<close>

text \<open>
  The descendants of a node as the specification means them, stated on the parent links
  alone and not through \<open>getAllDescendants\<close>: \<open>d\<close> is a descendant of \<open>i\<close> when \<open>d\<close> is
  the id of a node whose parent id is \<open>i\<close> or is a descendant of \<open>i\<close>.
\<close>

inductive isDescendant :: "ConversationNode list \<Rightarrow> string \<Rightarrow> string \<Rightarrow> bool"
  for ns :: "ConversationNode list" and i :: string where
  child: "n \<in> set ns \<Longrightarrow> parentId n = Some i \<Longrightarrow> isDescendant ns i (ident n)"
| below: "n \<in> set ns \<Longrightarrow> parentId n = Some p \<Longrightarrow> isDescendant ns i p \<Longrightarrow> isDescendant ns i (ident n)"

code_pred isDescendant .

text \<open>
  The sibling rank of the specification: the number of nodes sharing the node's parent
  that come before the node in the list in creation order.
\<close>

definition siblingRank :: "ConversationNode list \<Rightarrow> ConversationNode \<Rightarrow> nat" where
  "siblingRank sortedNodes node =
     length (filter (\<lambda>n. parentId n = parentId node)
                    (takeWhile (\<lambda>n. ident n \<noteq> ident node) sortedNodes))"

text \<open>
  The entries that the displacement step is to move when a branch is inserted under \<open>p\<close>:
  \<open>k\<close> is, or is a descendant of, a sibling \<open>S\<close> of some \<open>A\<close>, where \<open>A\<close> is \<open>p\<close> or an
  ancestor of \<open>p\<close> and the \<open>x\<close> of \<open>S\<close> is greater than the \<open>x\<close> of \<open>p\<close>.
\<close>

definition displacedBy :: "ConversationNode list \<Rightarrow> store \<Rightarrow> string \<Rightarrow> string \<Rightarrow> bool" where
  "displacedBy ns s p k =
     (\<exists>A \<in> set ns. \<exists>S \<in> set ns.
        (ident A = p \<or> isDescendant ns (ident A) p) \<and>
        parentId S = parentId A \<and> ident S \<noteq> ident A \<and>
        (\<exists>siblingPos parentPos. map_of s (ident S) = Some siblingPos \<and> map_of s p = Some parentPos \<and>
                                 fst parentPos < fst siblingPos) \<and>
        (k = ident S \<or> isDescendant ns (ident S) k))"

section \<open>Descendant lists of well-formed snapshots\<close>



lemma those_map_Some: "those (map (\<lambda>c. Some (h c)) cs) = Some (map h cs)"
  by (induction cs) auto

lemma those_Some_all: "those (map f cs) = Some ys \<Longrightarrow> c \<in> set cs \<Longrightarrow> f c \<noteq> None"
  by (induction cs arbitrary: ys) (auto split: option.splits)

lemma descendants_unfold:
  "descendants (Suc k) i ns =
     map_option concat
       (those (map (\<lambda>child. map_option (Cons (ident child)) (descendants k (ident child) ns)) (children ns i)))"
  by (simp add: children_def)

lemma descendants_Suc_intro:
  assumes "\<And>c. c \<in> set (children ns i) \<Longrightarrow> descendants k (ident c) ns = Some (g c)"
  shows "descendants (Suc k) i ns = Some (concat (map (\<lambda>c. ident c # g c) (children ns i)))"
proof -
  have "map (\<lambda>child. map_option (Cons (ident child)) (descendants k (ident child) ns)) (children ns i)
        = map (\<lambda>c. Some (ident c # g c)) (children ns i)"
    using assms by (intro map_cong) auto
  then show ?thesis
    unfolding descendants_unfold by (simp only: those_map_Some option.map)
qed

lemma descendants_Suc_elim:
  assumes "descendants (Suc k) i ns = Some ds"
  shows "(\<forall>c \<in> set (children ns i). descendants k (ident c) ns \<noteq> None) \<and>
         ds = concat (map (\<lambda>c. ident c # the (descendants k (ident c) ns)) (children ns i))"
proof -
  from assms obtain ys where ys:
    "those (map (\<lambda>child. map_option (Cons (ident child)) (descendants k (ident child) ns)) (children ns i)) = Some ys"
    unfolding descendants_unfold by (cases "those (map (\<lambda>child. map_option (Cons (ident child)) (descendants k (ident child) ns)) (children ns i))") auto
  have a: "\<forall>c \<in> set (children ns i). descendants k (ident c) ns \<noteq> None"
  proof
    fix c assume "c \<in> set (children ns i)"
    from those_Some_all [OF ys this] show "descendants k (ident c) ns \<noteq> None" by auto
  qed
  then have "\<And>c. c \<in> set (children ns i) \<Longrightarrow>
      descendants k (ident c) ns = Some (the (descendants k (ident c) ns))" by auto
  from descendants_Suc_intro [of ns i k "\<lambda>c. the (descendants k (ident c) ns)", OF this] assms
  have "ds = concat (map (\<lambda>c. ident c # the (descendants k (ident c) ns)) (children ns i))"
    by (simp only: option.inject)
  with a show ?thesis by blast
qed

declare descendants.simps(2) [simp del]

lemma descendants_mono: "descendants k i ns = Some ds \<Longrightarrow> descendants (Suc k) i ns = Some ds"
proof (induction k arbitrary: i ds)
  case 0
  then show ?case by simp
next
  case (Suc k)
  from descendants_Suc_elim [OF Suc.prems]
  have a: "\<forall>c \<in> set (children ns i). descendants k (ident c) ns \<noteq> None"
    and ds: "ds = concat (map (\<lambda>c. ident c # the (descendants k (ident c) ns)) (children ns i))"
    by auto
  have "\<And>c. c \<in> set (children ns i) \<Longrightarrow>
      descendants (Suc k) (ident c) ns = Some (the (descendants k (ident c) ns))"
    using a Suc.IH by auto
  from descendants_Suc_intro [of ns i "Suc k" "\<lambda>c. the (descendants k (ident c) ns)", OF this]
  show ?case by (simp only: ds)
qed

lemma descendants_mono_le: "descendants k i ns = Some ds \<Longrightarrow> k \<le> k' \<Longrightarrow> descendants k' i ns = Some ds"
  by (induction k' ) (auto simp: le_Suc_eq dest: descendants_mono)

lemma count_list_concat_map:
  "count_list (concat (map h cs)) d = sum_list (map (\<lambda>c. count_list (h c) d) cs)"
  by (induction cs) auto


lemma count_list_Cons': "count_list (a # xs) d = (if a = d then 1 else 0) + count_list xs d"
  by simp

lemma children_snoc:
  "children (ns @ [l]) i = children ns i @ (if parentId l = Some i then [l] else [])"
  by (simp add: children_def)


lemma descendants_leaf:
  assumes "\<forall>m \<in> set ns. parentId m \<noteq> Some i"
  shows "descendants (Suc k) i ns = Some []"
proof -
  have "children ns i = []" using assms by (auto simp: children_def filter_empty_conv)
  with descendants_Suc_intro [of ns i k "\<lambda>c. []"] show ?thesis by simp
qed

lemma descendants_snoc:
  assumes leaf: "\<forall>m \<in> set (ns @ [l]). parentId m \<noteq> Some (ident l)"
  shows "descendants k i ns = Some ds \<Longrightarrow>
         \<exists>ds'. descendants (Suc k) i (ns @ [l]) = Some ds' \<and>
               (\<forall>d. count_list ds' d = count_list ds d + (if d = ident l then extra l i ds else 0))"
proof (induction k arbitrary: i ds)
  case 0
  then show ?case by simp
next
  case (Suc k)
  let ?ns' = "ns @ [l]"
  let ?g = "\<lambda>c. the (descendants k (ident c) ns)"
  let ?g' = "\<lambda>c. the (descendants (Suc k) (ident c) ?ns')"
  from descendants_Suc_elim [OF Suc.prems]
  have a: "\<forall>c \<in> set (children ns i). descendants k (ident c) ns \<noteq> None"
    and ds: "ds = concat (map (\<lambda>c. ident c # ?g c) (children ns i))"
    by auto
  have old: "descendants (Suc k) (ident c) ?ns' \<noteq> None \<and>
             (\<forall>d. count_list (?g' c) d = count_list (?g c) d + (if d = ident l then extra l (ident c) (?g c) else 0))"
    if "c \<in> set (children ns i)" for c
  proof -
    from a that obtain dc where dc: "descendants k (ident c) ns = Some dc" by auto
    from Suc.IH [OF dc] dc show ?thesis by auto
  qed
  then have old2: "count_list (?g' c) d = count_list (?g c) d + (if d = ident l then extra l (ident c) (?g c) else 0)"
    if "c \<in> set (children ns i)" for c d using that by blast
  have old3: "count_list (ident c # ?g' c) d = count_list (ident c # ?g c) d + (if d = ident l then extra l (ident c) (?g c) else 0)"
    if "c \<in> set (children ns i)" for c d
    by (simp only: count_list_Cons' old2 [OF that] add.assoc)
  have new: "descendants (Suc k) (ident l) ?ns' = Some []"
    using leaf by (intro descendants_leaf) auto
  have all: "descendants (Suc k) (ident c) ?ns' = Some (?g' c)" if "c \<in> set (children ?ns' i)" for c
  proof -
    have "descendants (Suc k) (ident c) ?ns' \<noteq> None"
      using that old new by (auto simp: children_snoc split: if_splits)
    then show ?thesis by (cases "descendants (Suc k) (ident c) ?ns'") simp_all
  qed
  from descendants_Suc_intro [of ?ns' i "Suc k" ?g', OF all]
  have res: "descendants (Suc (Suc k)) i ?ns' = Some (concat (map (\<lambda>c. ident c # ?g' c) (children ?ns' i)))" .
  have cnt: "count_list (concat (map (\<lambda>c. ident c # ?g' c) (children ?ns' i))) d
             = count_list ds d + (if d = ident l then extra l i ds else 0)" for d
  proof -
    have 1: "sum_list (map (\<lambda>c. count_list (ident c # ?g' c) d) (children ns i))
           = sum_list (map (\<lambda>c. count_list (ident c # ?g c) d + (if d = ident l then extra l (ident c) (?g c) else 0)) (children ns i))"
      by (rule arg_cong [where f = sum_list], rule map_cong [OF refl]) (rule old3)
    have 2: "count_list ds d = sum_list (map (\<lambda>c. count_list (ident c # ?g c) d) (children ns i))"
      unfolding ds by (rule count_list_concat_map)
    have 3: "sum_list (map (\<lambda>c. extra l (ident c) (?g c)) (children ns i)) + (if parentId l = Some i then 1 else 0)
           = extra l i ds"
    proof (cases "parentId l")
      case None
      then show ?thesis by (simp add: extra_def)
    next
      case (Some p)
      have "count_list ds p = sum_list (map (\<lambda>c. count_list (ident c # ?g c) p) (children ns i))"
        unfolding ds by (rule count_list_concat_map)
      then show ?thesis using Some by (auto simp: extra_def)
    qed
    have 4: "?g' l = []" using new by simp
    have 5: "sum_list (map (\<lambda>c. count_list (ident c # ?g c) d + (if d = ident l then extra l (ident c) (?g c) else 0)) (children ns i))
           = count_list ds d + (if d = ident l then sum_list (map (\<lambda>c. extra l (ident c) (?g c)) (children ns i)) else 0)"
      unfolding 2 by (simp add: sum_list_addf)
    have "count_list (concat (map (\<lambda>c. ident c # ?g' c) (children ?ns' i))) d
        = sum_list (map (\<lambda>c. count_list (ident c # ?g' c) d) (children ns i))
          + (if parentId l = Some i then count_list [ident l] d else 0)"
      unfolding count_list_concat_map children_snoc
      by (cases "parentId l = Some i")
         (simp_all only: 4 if_True if_False append_Nil2 map_append sum_list.append list.map
            sum_list.Cons sum_list.Nil add_0_right simp_thms)
    also have "\<dots> = count_list ds d + (if d = ident l then sum_list (map (\<lambda>c. extra l (ident c) (?g c)) (children ns i)) else 0)
          + (if parentId l = Some i then count_list [ident l] d else 0)"
      unfolding 1 5 ..
    also have "\<dots> = count_list ds d + (if d = ident l then extra l i ds else 0)"
      unfolding 3 [symmetric] by simp
    finally show ?thesis .
  qed
  from res cnt show ?case by blast
qed



lemma count_list_pos_iff: "0 < count_list xs x \<longleftrightarrow> x \<in> set xs"
  using count_list_0_iff [of xs x] by auto

lemma distinct_count_le_1: "distinct xs \<longleftrightarrow> (\<forall>x. count_list xs x \<le> 1)"
proof (induction xs)
  case Nil
  then show ?case by simp
next
  case (Cons a xs)
  show ?case
  proof
    assume d: "distinct (a # xs)"
    then have "count_list xs a = 0" by (simp add: count_list_0_iff)
    with d Cons show "\<forall>x. count_list (a # xs) x \<le> 1" by auto
  next
    assume c: "\<forall>x. count_list (a # xs) x \<le> 1"
    then have "count_list (a # xs) a \<le> 1" by blast
    then have "a \<notin> set xs" by (simp add: count_list_0_iff)
    moreover have "\<forall>x. count_list xs x \<le> 1"
    proof
      fix x from c have "count_list (a # xs) x \<le> 1" by blast
      then show "count_list xs x \<le> 1" by (simp split: if_splits)
    qed
    ultimately show "distinct (a # xs)" using Cons by simp
  qed
qed

lemma parentsFirst_snoc:
  "parentsFirst (ns @ [l]) \<longleftrightarrow>
     parentsFirst ns \<and> ident l \<notin> ident ` set ns \<and> (\<forall>m \<in> set (ns @ [l]). parentId m \<noteq> Some (ident l))"
  by (induction ns) (auto simp: list_all_iff)

lemma getAllDescendants_leaf:
  "\<forall>m \<in> set ns. parentId m \<noteq> Some i \<Longrightarrow> getAllDescendants i ns = Some []"
  by (simp add: getAllDescendants_def descendants_leaf)

lemma getAllDescendants_snoc:
  assumes "parentsFirst (ns @ [l])" and "getAllDescendants i ns = Some ds"
  shows "\<exists>ds'. getAllDescendants i (ns @ [l]) = Some ds' \<and>
               (\<forall>d. count_list ds' d = count_list ds d + (if d = ident l then extra l i ds else 0))"
  using assms descendants_snoc [of ns l "Suc (length ns)" i ds]
  by (simp add: getAllDescendants_def parentsFirst_snoc)

lemma wf_descendants:
  "parentsFirst ns \<Longrightarrow>
   \<exists>ds. getAllDescendants i ns = Some ds \<and> distinct ds \<and> i \<notin> set ds \<and> set ds \<subseteq> ident ` set ns"
proof (induction ns arbitrary: i rule: rev_induct)
  case Nil
  then show ?case by (simp add: getAllDescendants_leaf)
next
  case (snoc l ns)
  from snoc.prems have pf: "parentsFirst ns" and fresh: "ident l \<notin> ident ` set ns"
    and leaf: "\<forall>m \<in> set (ns @ [l]). parentId m \<noteq> Some (ident l)"
    by (auto simp: parentsFirst_snoc)
  from snoc.IH [OF pf, of i] obtain ds where ds: "getAllDescendants i ns = Some ds"
    "distinct ds" "i \<notin> set ds" "set ds \<subseteq> ident ` set ns" by blast
  from getAllDescendants_snoc [OF snoc.prems ds(1)] obtain ds' where
    ds': "getAllDescendants i (ns @ [l]) = Some ds'"
    and cnt: "\<And>d. count_list ds' d = count_list ds d + (if d = ident l then extra l i ds else 0)"
    by blast
  have l0: "count_list ds (ident l) = 0" using ds(4) fresh by (auto simp: count_list_0_iff)
  have ex1: "extra l i ds \<le> 1"
  proof (cases "parentId l")
    case None then show ?thesis by (simp add: extra_def)
  next
    case (Some p)
    have "distinct (i # ds)" using ds by simp
    then have "count_list (i # ds) p \<le> 1" unfolding distinct_count_le_1 by blast
    then show ?thesis using Some by (simp add: extra_def)
  qed
  have exi: "extra l i ds = 0" if "i = ident l"
  proof -
    have "getAllDescendants i ns = Some []" using leaf that by (intro getAllDescendants_leaf) auto
    with ds(1) have "ds = []" by simp
    then show ?thesis using leaf that by (auto simp: extra_def split: option.splits)
  qed
  have "\<forall>d. count_list ds' d \<le> 1"
  proof
    fix d
    have "count_list ds d \<le> 1" using ds(2) unfolding distinct_count_le_1 by blast
    then show "count_list ds' d \<le> 1" using cnt [of d] l0 ex1 by (auto split: if_splits)
  qed
  then have 1: "distinct ds'" unfolding distinct_count_le_1 .
  have "count_list ds' i = 0" using cnt [of i] ds(3) exi by (auto simp: count_list_0_iff)
  then have 2: "i \<notin> set ds'" by (simp add: count_list_0_iff)
  have 3: "set ds' \<subseteq> ident ` set (ns @ [l])"
  proof
    fix d assume "d \<in> set ds'"
    then have "count_list ds' d \<noteq> 0" by (simp add: count_list_0_iff)
    with cnt [of d] have "d = ident l \<or> count_list ds d \<noteq> 0" by (auto split: if_splits)
    then show "d \<in> ident ` set (ns @ [l])" using ds(4) by (auto simp: count_list_0_iff)
  qed
  from ds' 1 2 3 show ?case by blast
qed

lemma wf_getAllDescendants: "parentsFirst ns \<Longrightarrow> getAllDescendants i ns = Some (descs ns i)"
  using wf_descendants [of ns i] by (auto simp: descs_def)

lemma wf_descs_distinct: "parentsFirst ns \<Longrightarrow> distinct (i # descs ns i)"
  using wf_descendants [of ns i] by (auto simp: descs_def)

lemma wf_descs_subset: "parentsFirst ns \<Longrightarrow> set (descs ns i) \<subseteq> ident ` set ns"
  using wf_descendants [of ns i] by (auto simp: descs_def)

lemma wf_descs_snoc:
  assumes "parentsFirst (ns @ [l])"
  shows "set (descs (ns @ [l]) i) =
         set (descs ns i) \<union> (if parentId l \<in> Some ` insert i (set (descs ns i)) then {ident l} else {})"
proof -
  from assms have pf: "parentsFirst ns" by (simp add: parentsFirst_snoc)
  from getAllDescendants_snoc [OF assms wf_getAllDescendants [OF pf, of i]]
  have cnt: "\<And>d. count_list (descs (ns @ [l]) i) d
        = count_list (descs ns i) d + (if d = ident l then extra l i (descs ns i) else 0)"
    by (auto simp: descs_def)
  have ex: "extra l i (descs ns i) \<noteq> 0 \<longleftrightarrow> parentId l \<in> Some ` insert i (set (descs ns i))"
    by (cases "parentId l") (auto simp: extra_def count_list_0_iff count_list_pos_iff)
  have "d \<in> set (descs (ns @ [l]) i) \<longleftrightarrow>
        d \<in> set (descs ns i) \<union> (if parentId l \<in> Some ` insert i (set (descs ns i)) then {ident l} else {})" for d
  proof -
    have "d \<in> set (descs (ns @ [l]) i) \<longleftrightarrow> count_list (descs (ns @ [l]) i) d \<noteq> 0"
      by (simp add: count_list_0_iff)
    also have "\<dots> \<longleftrightarrow> count_list (descs ns i) d \<noteq> 0 \<or> (d = ident l \<and> extra l i (descs ns i) \<noteq> 0)"
      unfolding cnt by auto
    also have "\<dots> \<longleftrightarrow> d \<in> set (descs ns i) \<union> (if parentId l \<in> Some ` insert i (set (descs ns i)) then {ident l} else {})"
      unfolding ex by (auto simp: count_list_0_iff)
    finally show ?thesis .
  qed
  then show ?thesis by blast
qed

lemma wf_descs_unfold:
  assumes "parentsFirst ns"
  shows "descs ns p = concat (map (\<lambda>c. ident c # descs ns (ident c)) (children ns p))"
proof -
  have g: "descendants (Suc (length ns)) p ns = Some (descs ns p)"
    using wf_getAllDescendants [OF assms, of p] by (simp add: getAllDescendants_def)
  from descendants_Suc_elim [OF g]
  have a: "\<forall>c \<in> set (children ns p). descendants (length ns) (ident c) ns \<noteq> None"
    and d: "descs ns p = concat (map (\<lambda>c. ident c # the (descendants (length ns) (ident c) ns)) (children ns p))"
    by auto
  have "the (descendants (length ns) (ident c) ns) = descs ns (ident c)" if "c \<in> set (children ns p)" for c
  proof -
    from a that obtain dc where dc: "descendants (length ns) (ident c) ns = Some dc" by auto
    from descendants_mono [OF dc] dc show ?thesis by (simp add: descs_def getAllDescendants_def)
  qed
  then have "map (\<lambda>c. ident c # the (descendants (length ns) (ident c) ns)) (children ns p)
           = map (\<lambda>c. ident c # descs ns (ident c)) (children ns p)"
    by (intro map_cong) auto
  with d show ?thesis by simp
qed


lemma map_entry_distinct:
  "distinct (map fst s) \<Longrightarrow>
   AList.map_entry k f s = map (\<lambda>(k', p). if k' = k then (k', f p) else (k', p)) s"
proof (induction s)
  case Nil
  then show ?case by simp
next
  case (Cons e s)
  obtain k' p where e: "e = (k', p)" by (cases e)
  show ?case
  proof (cases "k' = k")
    case True
    with Cons.prems e have "k \<notin> fst ` set s" by auto
    then have "map (\<lambda>(k', p). if k' = k then (k', f p) else (k', p)) s = s"
      by (intro map_idI) (force split: prod.splits)
    with True e show ?thesis by simp
  next
    case False
    with Cons e show ?thesis by simp
  qed
qed

lemma shiftIds_Nil: "shiftIds a [] s = s"
  by (simp add: shiftIds_def)

lemma shiftIds_Cons: "shiftIds a (i # ids) s = shiftIds a ids (AList.map_entry i (shiftX a) s)"
  by (simp add: shiftIds_def)

lemma shiftIds_keys: "map fst (shiftIds a ids s) = map fst s"
proof (induction ids arbitrary: s)
  case Nil
  then show ?case by (simp add: shiftIds_Nil)
next
  case (Cons i ids)
  have "map fst (AList.map_entry i (shiftX a) s) = map fst s"
    by (induction s) auto
  with Cons show ?case by (simp add: shiftIds_Cons)
qed

lemma shiftIds_map_of:
  "map_of (shiftIds a ids s) k
   = map_option (\<lambda>p. (fst p + int (count_list ids k) * a, snd p)) (map_of s k)"
proof (induction ids arbitrary: s)
  case Nil
  then show ?case by (simp add: shiftIds_Nil option.map_ident)
next
  case (Cons i ids)
  show ?case
    by (cases "map_of s k")
       (auto simp: shiftIds_Cons Cons map_of_map_entry shiftX_def algebra_simps)
qed

lemma shiftIds_distinct:
  assumes "distinct (map fst s)" and "distinct ids"
  shows "shiftIds a ids s = map (\<lambda>(k, pos). if k \<in> set ids then (k, (fst pos + a, snd pos)) else (k, pos)) s"
  using assms
proof (induction ids arbitrary: s)
  case Nil
  then show ?case by (simp add: shiftIds_Nil)
next
  case (Cons i ids)
  let ?s1 = "AList.map_entry i (shiftX a) s"
  have s1: "?s1 = map (\<lambda>(k', p). if k' = i then (k', shiftX a p) else (k', p)) s"
    using Cons.prems(1) by (rule map_entry_distinct)
  have k1: "map fst ?s1 = map fst s" by (induction s) auto
  from Cons.prems have "shiftIds a ids ?s1
      = map (\<lambda>(k, pos). if k \<in> set ids then (k, (fst pos + a, snd pos)) else (k, pos)) ?s1"
    by (intro Cons.IH) (simp_all add: k1)
  also have "\<dots> = map (\<lambda>(k, pos). if k \<in> set (i # ids) then (k, (fst pos + a, snd pos)) else (k, pos)) s"
    unfolding s1 using Cons.prems(2) by (auto simp: shiftX_def)
  finally show ?case by (simp add: shiftIds_Cons)
qed

lemma wf_descs_leaf: "\<forall>m \<in> set ns. parentId m \<noteq> Some i \<Longrightarrow> descs ns i = []"
  by (simp add: descs_def getAllDescendants_leaf)

lemma wf_descs_trans:
  "parentsFirst ns \<Longrightarrow> p \<in> set (descs ns i) \<Longrightarrow> set (descs ns p) \<subseteq> set (descs ns i)"
proof (induction ns arbitrary: p i rule: rev_induct)
  case Nil
  then show ?case by (simp add: wf_descs_leaf)
next
  case (snoc l ns)
  from snoc.prems(1) have pf: "parentsFirst ns"
    and leaf: "\<forall>m \<in> set (ns @ [l]). parentId m \<noteq> Some (ident l)"
    by (auto simp: parentsFirst_snoc)
  show ?case
  proof (cases "p \<in> set (descs ns i)")
    case True
    from snoc.IH [OF pf True] have "set (descs ns p) \<subseteq> set (descs ns i)" .
    with True show ?thesis
      unfolding wf_descs_snoc [OF snoc.prems(1)] by auto
  next
    case False
    with snoc.prems(2) have p: "p = ident l"
      unfolding wf_descs_snoc [OF snoc.prems(1)] by (auto split: if_splits)
    have "descs ns p = []" using leaf p by (intro wf_descs_leaf) auto
    moreover have "parentId l \<noteq> Some (ident l)" using leaf by auto
    ultimately have "set (descs (ns @ [l]) p) = {}"
      unfolding wf_descs_snoc [OF snoc.prems(1)] using p by auto
    then show ?thesis by simp
  qed
qed

lemma wf_descs_child:
  "parentsFirst ns \<Longrightarrow> m \<in> set ns \<Longrightarrow> parentId m = Some p \<Longrightarrow> ident m \<in> set (descs ns p)"
  unfolding wf_descs_unfold [of ns p] by (auto simp: children_def)

lemma wf_descs_closed:
  assumes "parentsFirst ns" "m \<in> set ns" "parentId m = Some p" "p \<in> set (i # descs ns i)"
  shows "ident m \<in> set (descs ns i)"
proof (cases "p = i")
  case True
  then show ?thesis using assms wf_descs_child by auto
next
  case False
  with assms(4) have "p \<in> set (descs ns i)" by simp
  from wf_descs_trans [OF assms(1) this] wf_descs_child [OF assms(1-3)] show ?thesis by auto
qed

lemma wf_descs_parent:
  "parentsFirst ns \<Longrightarrow> d \<in> set (descs ns i) \<Longrightarrow>
   \<exists>m \<in> set ns. ident m = d \<and> (\<exists>p \<in> set (i # descs ns i). parentId m = Some p)"
proof (induction ns arbitrary: d i rule: rev_induct)
  case Nil
  then show ?case by (simp add: wf_descs_leaf)
next
  case (snoc l ns)
  from snoc.prems(1) have pf: "parentsFirst ns" by (auto simp: parentsFirst_snoc)
  have sub: "set (descs ns i) \<subseteq> set (descs (ns @ [l]) i)"
    unfolding wf_descs_snoc [OF snoc.prems(1)] by auto
  show ?case
  proof (cases "d \<in> set (descs ns i)")
    case True
    from snoc.IH [OF pf True] obtain m p where "m \<in> set ns" "ident m = d"
      "p \<in> set (i # descs ns i)" "parentId m = Some p" by blast
    moreover from this sub have "p \<in> set (i # descs (ns @ [l]) i)" by auto
    ultimately show ?thesis by auto
  next
    case False
    with snoc.prems(2) have "d = ident l" "parentId l \<in> Some ` insert i (set (descs ns i))"
      unfolding wf_descs_snoc [OF snoc.prems(1)] by (auto split: if_splits)
    then obtain p where "parentId l = Some p" "p \<in> set (i # descs ns i)" by auto
    moreover from this sub have "p \<in> set (i # descs (ns @ [l]) i)" by auto
    ultimately show ?thesis using \<open>d = ident l\<close> by auto
  qed
qed

lemma map_of_fold_delete:
  "map_of (fold AList.delete ids s) k = (if k \<in> set ids then None else map_of s k)"
proof (induction ids arbitrary: s)
  case Nil
  then show ?case by simp
next
  case (Cons i ids)
  show ?case by (simp add: Cons delete_conv')
qed

lemma find_SomeD: "find P xs = Some r \<Longrightarrow> r \<in> set xs \<and> P r"
  by (induction xs) (auto split: if_splits)

lemma find_Some_ex: "x \<in> set xs \<Longrightarrow> P x \<Longrightarrow> \<exists>r. find P xs = Some r"
  by (induction xs) auto

lemma sorted_last_max:
  "sorted (map f xs) \<Longrightarrow> m \<in> set xs \<Longrightarrow> f m \<le> f (last xs)"
proof (induction xs)
  case Nil
  then show ?case by simp
next
  case (Cons a xs)
  then show ?case by (cases "xs = []") auto
qed

section \<open>The descendant relation and the descendant lists\<close>

lemma isDescendant_mono:
  "isDescendant ns i d \<Longrightarrow> set ns \<subseteq> set ns' \<Longrightarrow> isDescendant ns' i d"
  by (induction rule: isDescendant.induct) (auto intro: isDescendant.intros)

lemma descs_isDescendant:
  "parentsFirst ns \<Longrightarrow> d \<in> set (descs ns i) \<Longrightarrow> isDescendant ns i d"
proof (induction ns arbitrary: d rule: rev_induct)
  case Nil
  then show ?case by (simp add: wf_descs_leaf)
next
  case (snoc l ns)
  from snoc.prems(1) have pf: "parentsFirst ns" by (simp add: parentsFirst_snoc)
  have mono: "isDescendant (ns @ [l]) i x" if "x \<in> set (descs ns i)" for x
    by (rule isDescendant_mono [OF snoc.IH [OF pf that]]) auto
  show ?case
  proof (cases "d \<in> set (descs ns i)")
    case True
    then show ?thesis by (rule mono)
  next
    case False
    with snoc.prems(2) have d: "d = ident l" and p: "parentId l \<in> Some ` insert i (set (descs ns i))"
      unfolding wf_descs_snoc [OF snoc.prems(1)] by (auto split: if_splits)
    from p consider "parentId l = Some i" | q where "parentId l = Some q" "q \<in> set (descs ns i)" by auto
    then show ?thesis
    proof cases
      case 1
      then show ?thesis unfolding d by (intro isDescendant.child) simp_all
    next
      case 2
      from isDescendant.below [of l "ns @ [l]" q i] 2(1) mono [OF 2(2)] show ?thesis unfolding d by simp
    qed
  qed
qed

lemma isDescendant_descs:
  "isDescendant ns i d \<Longrightarrow> parentsFirst ns \<Longrightarrow> d \<in> set (descs ns i)"
proof (induction rule: isDescendant.induct)
  case (child n)
  then show ?case by (simp add: wf_descs_child)
next
  case (below n p)
  from wf_descs_closed [OF below.prems below.hyps(1,2), of i] below.IH [OF below.prems]
  show ?case by simp
qed

lemma wf_descs_iff: "parentsFirst ns \<Longrightarrow> d \<in> set (descs ns i) \<longleftrightarrow> isDescendant ns i d"
  using descs_isDescendant isDescendant_descs by blast

section \<open>Nodes of well-formed snapshots\<close>

lemma parentsFirst_split:
  "parentsFirst (pre @ cur # post) \<Longrightarrow> m \<in> set (cur # post) \<Longrightarrow> parentId cur \<noteq> Some (ident m)"
  by (induction pre) (auto simp: list_all_iff)

lemma parentsFirst_distinct: "parentsFirst ns \<Longrightarrow> distinct (map ident ns)"
  by (induction ns) auto

lemma wf_inj_ident: "parentsFirst ns \<Longrightarrow> a \<in> set ns \<Longrightarrow> b \<in> set ns \<Longrightarrow> ident a = ident b \<Longrightarrow> a = b"
  using parentsFirst_distinct [of ns] by (auto simp: distinct_map inj_on_def)

lemma wf_not_own_parent: "parentsFirst ns \<Longrightarrow> n \<in> set ns \<Longrightarrow> parentId n \<noteq> Some (ident n)"
  using parentsFirst_split [of _ n _ n] by (auto dest!: split_list)

lemma wf_descs_irrefl: "parentsFirst ns \<Longrightarrow> i \<notin> set (descs ns i)"
  using wf_descs_distinct [of ns i] by simp

lemma wf_descs_node:
  assumes wf: "parentsFirst ns" and n: "n \<in> set ns" and d: "ident n \<in> set (descs ns i)"
  shows "\<exists>q. parentId n = Some q \<and> (q = i \<or> q \<in> set (descs ns i))"
proof -
  from wf_descs_parent [OF wf d] obtain m p where m: "m \<in> set ns" "ident m = ident n"
    "p \<in> set (i # descs ns i)" "parentId m = Some p" by blast
  from wf_inj_ident [OF wf m(1) n m(2)] have "m = n" .
  with m show ?thesis by auto
qed

lemma find_unique:
  "distinct (map ident xs) \<Longrightarrow> n \<in> set xs \<Longrightarrow> find (\<lambda>m. ident m = ident n) xs = Some n"
  by (induction xs) (auto simp: rev_image_eqI)

section \<open>Placement of parentless nodes\<close>

lemma update_absent: "map_of s k = None \<Longrightarrow> AList.update k v s = s @ [(k, v)]"
  by (induction s) (auto split: if_splits)

text \<open>
  C8, as the code has it: an unplaced node without parent (\<open>parentId\<close> null or empty) is
  locked at the origin \<open>(0, 0)\<close> whatever the store already holds there, as a new last
  entry; no other entry is touched.
\<close>

theorem placeNode_parentless:
  "map_of s (ident node) = None \<Longrightarrow> falsy (parentId node) \<Longrightarrow>
   placeNode sortedNodes node s = Some (s @ [(ident node, (0, 0))])"
  by (auto simp: placeNode_def falsy_def update_absent split: option.splits)

theorem placeNode_parentless_witness:
  "map_of [(''r1'', (0, 0))] (ident \<lparr>ident = ''r2'', parentId = None, timestamp = 1\<rparr>) = None \<and>
   falsy (parentId \<lparr>ident = ''r2'', parentId = None, timestamp = 1\<rparr>) \<and>
   placeNode [\<lparr>ident = ''r1'', parentId = None, timestamp = 0\<rparr>, \<lparr>ident = ''r2'', parentId = None, timestamp = 1\<rparr>]
     \<lparr>ident = ''r2'', parentId = None, timestamp = 1\<rparr> [(''r1'', (0, 0))]
   = Some [(''r1'', (0, 0)), (''r2'', (0, 0))]"
  using placeNode_parentless [of "[(''r1'', (0, 0))]" "\<lparr>ident = ''r2'', parentId = None, timestamp = 1\<rparr>"
      "[\<lparr>ident = ''r1'', parentId = None, timestamp = 0\<rparr>, \<lparr>ident = ''r2'', parentId = None, timestamp = 1\<rparr>]"]
  by (simp add: falsy_def)

text \<open>
  C8 as stated fails: with a root already locked at the origin, the pass locks a second
  root at the origin too.
\<close>

theorem two_roots_at_origin:
  "layoutPass \<lparr>nodes = [\<lparr>ident = ''r1'', parentId = None, timestamp = 0\<rparr>,
                         \<lparr>ident = ''r2'', parentId = None, timestamp = 1\<rparr>],
                activeNodeId = Some ''r2''\<rparr> [(''r1'', (0, 0))]
   = Some [(''r1'', (0, 0)), (''r2'', (0, 0))]"
  by (simp add: layoutPass_def sortedNodesOf_def placeNode_def)

section \<open>The branch mover\<close>

text \<open>
  C5: on a well-formed snapshot (unique ids, parents first) \<open>getAllDescendants\<close> returns
  a repetition-free list of exactly the descendants of the node, and the branch mover
  returns the store with the \<open>x\<close> of every entry whose key is the node or one of its
  descendants (at any depth) moved by exactly the shift amount (to the right for
  \<open>shiftBranchRight\<close>, to the left for \<open>shiftBranchLeft\<close>); \<open>y\<close> and every other entry are
  unchanged.
\<close>

theorem shiftBranch_moves_branch_rigidly:
  assumes "parentsFirst allNodes" and "distinct (map fst s)"
  shows "(\<exists>ds. getAllDescendants nodeId allNodes = Some ds \<and> distinct (nodeId # ds) \<and>
               set ds = {d. isDescendant allNodes nodeId d}) \<and>
         shiftBranchRight nodeId a allNodes s
           = Some (map (\<lambda>(k, pos). if k = nodeId \<or> isDescendant allNodes nodeId k
                                    then (k, (fst pos + a, snd pos)) else (k, pos)) s) \<and>
         shiftBranchLeft nodeId a allNodes s
           = Some (map (\<lambda>(k, pos). if k = nodeId \<or> isDescendant allNodes nodeId k
                                    then (k, (fst pos - a, snd pos)) else (k, pos)) s)"
proof -
  let ?ds = "descs allNodes nodeId"
  have mem: "k \<in> set (nodeId # ?ds) \<longleftrightarrow> k = nodeId \<or> isDescendant allNodes nodeId k" for k
    using wf_descs_iff [OF assms(1), of k nodeId] by simp
  have g: "getAllDescendants nodeId allNodes = Some ?ds"
    using assms(1) by (rule wf_getAllDescendants)
  have d: "distinct (nodeId # ?ds)" using assms(1) by (rule wf_descs_distinct)
  have e: "set ?ds = {d. isDescendant allNodes nodeId d}"
    using wf_descs_iff [OF assms(1), of _ nodeId] by blast
  have r: "shiftBranchRight nodeId a allNodes s
        = Some (map (\<lambda>(k, pos). if k \<in> set (nodeId # ?ds) then (k, (fst pos + a, snd pos)) else (k, pos)) s)"
    unfolding shiftBranchRight_def g using shiftIds_distinct [OF assms(2) d, of a] by simp
  have l: "shiftBranchLeft nodeId a allNodes s
        = Some (map (\<lambda>(k, pos). if k \<in> set (nodeId # ?ds) then (k, (fst pos - a, snd pos)) else (k, pos)) s)"
    unfolding shiftBranchLeft_def g by (auto simp: shiftIds_distinct [OF assms(2) d])
  from g d e r [unfolded mem] l [unfolded mem] show ?thesis by blast
qed

lemma exampleNodes_wf: "parentsFirst exampleNodes"
  by (simp add: exampleNodes_def)

lemma exampleNodes_descs: "getAllDescendants ''A'' exampleNodes = Some [''A1'']"
  by code_simp

lemma exampleNodes_descs_root: "descs exampleNodes ''R'' = [''A'', ''A1'', ''B'']"
  by code_simp

lemma exampleNodes_below_root:
  "isDescendant exampleNodes ''R'' k \<longleftrightarrow> k \<in> set [''A'', ''A1'', ''B'']"
  using wf_descs_iff [OF exampleNodes_wf, of k "''R''"] by (simp only: exampleNodes_descs_root)

lemma exampleNodes_below_A: "isDescendant exampleNodes ''A'' k \<longleftrightarrow> k \<in> set [''A1'']"
  using wf_descs_iff [OF exampleNodes_wf, of k "''A''"] exampleNodes_descs
  by (simp add: descs_def)

theorem shiftBranch_moves_branch_rigidly_witness:
  "parentsFirst exampleNodes \<and> distinct (map fst exampleStore) \<and>
   shiftBranchRight ''R'' 450 exampleNodes exampleStore
     = Some [(''R'', (450, 0)), (''A'', (450, 180)), (''B'', (900, 180)), (''A1'', (450, 360))] \<and>
   shiftBranchRight ''A'' 450 exampleNodes exampleStore
     = Some [(''R'', (0, 0)), (''A'', (450, 180)), (''B'', (450, 180)), (''A1'', (450, 360))] \<and>
   shiftBranchLeft ''A'' 450 exampleNodes exampleStore
     = Some [(''R'', (0, 0)), (''A'', (- 450, 180)), (''B'', (450, 180)), (''A1'', (- 450, 360))]"
proof -
  have h: "distinct (map fst exampleStore)" by (simp add: exampleStore_def)
  from shiftBranch_moves_branch_rigidly [OF exampleNodes_wf h, of "''R''" 450]
       shiftBranch_moves_branch_rigidly [OF exampleNodes_wf h, of "''A''" 450]
  show ?thesis using exampleNodes_wf h
    by (simp add: exampleNodes_below_root exampleNodes_below_A exampleStore_def)
qed

section \<open>Deletion\<close>

lemma handleDeleteNode_facts:
  assumes wf: "parentsFirst (nodes prev)"
    and ex: "nodeId \<in> ident ` set (nodes prev)"
    and chrono: "sorted (map timestamp (nodes prev))"
  shows "\<exists>ds remaining restored newActive.
     getAllDescendants nodeId (nodes prev) = Some ds \<and>
     (\<forall>m \<in> set (nodes prev). \<forall>p \<in> set (nodeId # ds). parentId m = Some p \<longrightarrow> ident m \<in> set ds) \<and>
     (\<forall>d \<in> set ds. \<exists>m \<in> set (nodes prev). ident m = d \<and> (\<exists>p \<in> set (nodeId # ds). parentId m = Some p)) \<and>
     handleDeleteNode nodeId prev s
       = Some (prev\<lparr>nodes := remaining, activeNodeId := newActive\<rparr>, restored) \<and>
     remaining = filter (\<lambda>n. ident n \<notin> set (nodeId # ds)) (nodes prev) \<and>
     (\<forall>k pos. map_of restored k = Some pos \<longrightarrow>
        map_of s k = Some pos \<and> (\<exists>r. find (\<lambda>n. falsy (parentId n)) remaining = Some r \<and> k = ident r)) \<and>
     (\<forall>r pos. find (\<lambda>n. falsy (parentId n)) remaining = Some r \<and> ident r \<noteq> [] \<and> map_of s (ident r) = Some pos
        \<longrightarrow> restored = [(ident r, pos)]) \<and>
     (\<forall>a. activeNodeId prev = Some a \<and> a \<in> set (nodeId # ds) \<longrightarrow>
        (if remaining = [] then newActive = None
         else newActive = Some (ident (last remaining)) \<and>
              (\<forall>m \<in> set remaining. timestamp m \<le> timestamp (last remaining))))"
proof -
  let ?ns = "nodes prev"
  let ?ds = "descs ?ns nodeId"
  let ?ids = "nodeId # ?ds"
  let ?rem = "filter (\<lambda>n. ident n \<notin> set ?ids) ?ns"
  let ?s1 = "fold AList.delete ?ids s"
  let ?root = "find (\<lambda>n. falsy (parentId n)) ?rem"
  let ?restored = "(case ?root of
                         None \<Rightarrow> []
                       | Some r \<Rightarrow>
                           if ident r = [] then []
                           else (case map_of ?s1 (ident r) of
                                   None \<Rightarrow> []
                                 | Some rootPosition \<Rightarrow> [(ident r, rootPosition)]))"
  let ?act = "(if (case activeNodeId prev of None \<Rightarrow> [] | Some a \<Rightarrow> a) \<in> set ?ids
                       then (if ?rem \<noteq> [] then Some (ident (last ?rem)) else None)
                       else activeNodeId prev)"
  have g: "getAllDescendants nodeId ?ns = Some ?ds" using wf by (rule wf_getAllDescendants)
  from ex obtain nd where "find (\<lambda>n. ident n = nodeId) ?ns = Some nd"
    using find_Some_ex [of _ ?ns "\<lambda>n. ident n = nodeId"] by auto
  then have h: "handleDeleteNode nodeId prev s
       = Some (prev\<lparr>nodes := ?rem, activeNodeId := ?act\<rparr>, ?restored)"
    by (simp add: handleDeleteNode_def g Let_def)
  have c1: "\<forall>m \<in> set ?ns. \<forall>p \<in> set ?ids. parentId m = Some p \<longrightarrow> ident m \<in> set ?ds"
    using wf_descs_closed [OF wf] by blast
  have c2: "\<forall>d \<in> set ?ds. \<exists>m \<in> set ?ns. ident m = d \<and> (\<exists>p \<in> set ?ids. parentId m = Some p)"
    using wf_descs_parent [OF wf] by blast
  have rootsurv: "ident r \<notin> set ?ids" if "?root = Some r" for r
  proof -
    from find_SomeD [OF that] have "r \<in> set ?rem" by blast
    then show ?thesis by simp
  qed
  have r1: "\<forall>k pos. map_of ?restored k = Some pos \<longrightarrow>
        map_of s k = Some pos \<and> (\<exists>r. ?root = Some r \<and> k = ident r)"
  proof (cases ?root)
    case None
    then show ?thesis by simp
  next
    case (Some r)
    from rootsurv [OF Some] have "map_of ?s1 (ident r) = map_of s (ident r)"
      by (simp only: map_of_fold_delete if_False)
    then show ?thesis using Some by (auto split: option.splits if_splits)
  qed
  have r2: "\<forall>r pos. ?root = Some r \<and> ident r \<noteq> [] \<and> map_of s (ident r) = Some pos
        \<longrightarrow> ?restored = [(ident r, pos)]"
  proof (intro allI impI)
    fix r pos assume a: "?root = Some r \<and> ident r \<noteq> [] \<and> map_of s (ident r) = Some pos"
    with rootsurv [of r] have "map_of ?s1 (ident r) = Some pos"
      by (simp only: map_of_fold_delete if_False)
    with a show "?restored = [(ident r, pos)]" by simp
  qed
  have srt: "sorted (map timestamp ?rem)" using chrono by (rule sorted_filter)
  have a1: "\<forall>a. activeNodeId prev = Some a \<and> a \<in> set ?ids \<longrightarrow>
        (if ?rem = [] then ?act = None
         else ?act = Some (ident (last ?rem)) \<and>
              (\<forall>m \<in> set ?rem. timestamp m \<le> timestamp (last ?rem)))"
    using sorted_last_max [OF srt] by auto
  from g c1 c2 h r1 r2 a1 show ?thesis by blast
qed


text \<open>
  C7: deleting an existing node of a well-formed snapshot kept in creation order.  The
  call returns; exactly the nodes whose id is the node's or in its descendant list \<open>ds\<close>
  leave the snapshot, where \<open>ds\<close> is the full descendant set (it holds every child of its
  members and of the node, and nothing else); the store afterwards has no entry but that
  of the first surviving parentless node, with the coordinate it had before; and when the
  active node was deleted, the new active node is the last surviving node, whose
  timestamp is the greatest among the survivors, or \<open>None\<close> when none survives.
\<close>

theorem handleDeleteNode_effect:
  assumes wf: "parentsFirst (nodes prev)"
    and ex: "nodeId \<in> ident ` set (nodes prev)"
    and chrono: "sorted (map timestamp (nodes prev))"
  shows "\<exists>ds remaining restored newActive.
     getAllDescendants nodeId (nodes prev) = Some ds \<and>
     (\<forall>m \<in> set (nodes prev). \<forall>p \<in> set (nodeId # ds). parentId m = Some p \<longrightarrow> ident m \<in> set ds) \<and>
     (\<forall>d \<in> set ds. \<exists>m \<in> set (nodes prev). ident m = d \<and> (\<exists>p \<in> set (nodeId # ds). parentId m = Some p)) \<and>
     handleDeleteNode nodeId prev s
       = Some (prev\<lparr>nodes := remaining, activeNodeId := newActive\<rparr>, restored) \<and>
     remaining = filter (\<lambda>n. ident n \<notin> set (nodeId # ds)) (nodes prev) \<and>
     (\<forall>k pos. map_of restored k = Some pos \<longrightarrow>
        map_of s k = Some pos \<and> (\<exists>r. find (\<lambda>n. falsy (parentId n)) remaining = Some r \<and> k = ident r)) \<and>
     (\<forall>r pos. find (\<lambda>n. falsy (parentId n)) remaining = Some r \<and> ident r \<noteq> [] \<and> map_of s (ident r) = Some pos
        \<longrightarrow> restored = [(ident r, pos)]) \<and>
     (\<forall>a. activeNodeId prev = Some a \<and> a \<in> set (nodeId # ds) \<longrightarrow>
        (if remaining = [] then newActive = None
         else newActive = Some (ident (last remaining)) \<and>
              (\<forall>m \<in> set remaining. timestamp m \<le> timestamp (last remaining))))"
  using assms by (rule handleDeleteNode_facts)

theorem handleDeleteNode_effect_witness:
  "parentsFirst (nodes \<lparr>nodes = exampleNodes, activeNodeId = Some ''A1''\<rparr>) \<and>
   ''A'' \<in> ident ` set (nodes \<lparr>nodes = exampleNodes, activeNodeId = Some ''A1''\<rparr>) \<and>
   sorted (map timestamp (nodes \<lparr>nodes = exampleNodes, activeNodeId = Some ''A1''\<rparr>)) \<and>
   handleDeleteNode ''A'' \<lparr>nodes = exampleNodes, activeNodeId = Some ''A1''\<rparr>
       [(''R'', (0, 0)), (''A'', (0, 180)), (''B'', (450, 180)), (''A1'', (0, 360))]
     = Some (\<lparr>nodes = [\<lparr>ident = ''R'', parentId = None, timestamp = 0\<rparr>,
                        \<lparr>ident = ''B'', parentId = Some ''R'', timestamp = 2\<rparr>],
              activeNodeId = Some ''B''\<rparr>,
             [(''R'', (0, 0))])"
proof -
  let ?prev = "\<lparr>nodes = exampleNodes, activeNodeId = Some ''A1''\<rparr>"
  let ?s = "[(''R'', (0, 0)), (''A'', (0, 180)), (''B'', (450, 180)), (''A1'', (0::int, 360::int))]"
  have h1: "parentsFirst (nodes ?prev)" by (simp add: exampleNodes_def)
  have h2: "''A'' \<in> ident ` set (nodes ?prev)" by (simp add: exampleNodes_def)
  have h3: "sorted (map timestamp (nodes ?prev))" by (simp add: exampleNodes_def)
  from handleDeleteNode_effect [OF h1 h2 h3, of ?s]
  obtain ds remaining restored newActive where
    ds: "getAllDescendants ''A'' (nodes ?prev) = Some ds"
    and h: "handleDeleteNode ''A'' ?prev ?s = Some (?prev\<lparr>nodes := remaining, activeNodeId := newActive\<rparr>, restored)"
    and rem: "remaining = filter (\<lambda>n. ident n \<notin> set (''A'' # ds)) (nodes ?prev)"
    and rst: "\<forall>r pos. find (\<lambda>n. falsy (parentId n)) remaining = Some r \<and> ident r \<noteq> [] \<and> map_of ?s (ident r) = Some pos
        \<longrightarrow> restored = [(ident r, pos)]"
    and act: "\<forall>a. activeNodeId ?prev = Some a \<and> a \<in> set (''A'' # ds) \<longrightarrow>
        (if remaining = [] then newActive = None
         else newActive = Some (ident (last remaining)) \<and>
              (\<forall>m \<in> set remaining. timestamp m \<le> timestamp (last remaining)))"
    by blast
  from ds have ds': "ds = [''A1'']" by (simp add: exampleNodes_descs)
  from rem have rem': "remaining = [\<lparr>ident = ''R'', parentId = None, timestamp = 0\<rparr>,
                        \<lparr>ident = ''B'', parentId = Some ''R'', timestamp = 2\<rparr>]"
    by (simp add: ds' exampleNodes_def)
  from rst have rst': "restored = [(''R'', (0, 0))]" by (simp add: rem' falsy_def)
  from act have act': "newActive = Some ''B''" by (simp add: ds' rem')
  from h show ?thesis using h1 h2 h3 by (simp add: rem' rst' act')
qed

section \<open>What a layout pass does to locked entries\<close>

lemma movedRight_refl: "movedRight s s"
proof -
  have "\<exists>m::nat. map_of s k = Some (fst p + int m * horizontalSpacing, snd p)"
    if "map_of s k = Some p" for k p
    using that by (intro exI [of _ 0]) simp
  then show ?thesis by (simp add: movedRight_def)
qed

lemma movedRight_trans:
  assumes "movedRight s s1" and "movedRight s1 s2"
  shows "movedRight s s2"
proof -
  have "\<exists>m::nat. map_of s2 k = Some (fst p + int m * horizontalSpacing, snd p)"
    if "map_of s k = Some p" for k p
  proof -
    from assms(1) that obtain m1 :: nat where
      1: "map_of s1 k = Some (fst p + int m1 * horizontalSpacing, snd p)"
      unfolding movedRight_def by blast
    from assms(2) 1 obtain m2 :: nat where
      "map_of s2 k = Some (fst p + int m1 * horizontalSpacing + int m2 * horizontalSpacing, snd p)"
      unfolding movedRight_def by fastforce
    then have "map_of s2 k = Some (fst p + int (m1 + m2) * horizontalSpacing, snd p)"
      by (simp add: algebra_simps)
    then show ?thesis by blast
  qed
  then show ?thesis by (simp add: movedRight_def)
qed

lemma shiftedRight_refl: "shiftedRight s s"
  by (simp add: shiftedRight_def movedRight_refl)

lemma shiftedRight_trans: "shiftedRight s s1 \<Longrightarrow> shiftedRight s1 s2 \<Longrightarrow> shiftedRight s s2"
  unfolding shiftedRight_def using movedRight_trans by auto

lemma shiftedRight_shiftIds: "shiftedRight s (shiftIds horizontalSpacing ids s)"
  unfolding shiftedRight_def movedRight_def by (auto simp: shiftIds_keys shiftIds_map_of)

lemma wf_shiftBranchRight:
  "parentsFirst ns \<Longrightarrow> shiftBranchRight i a ns s = Some (shiftIds a (i # descs ns i) s)"
  by (simp add: shiftBranchRight_def wf_getAllDescendants)

lemma wf_shiftSiblings:
  assumes "parentsFirst ns"
  shows "\<exists>s'. shiftSiblings key sibs ns s = Some s' \<and> shiftedRight s s'"
proof (induction sibs arbitrary: s)
  case Nil
  then show ?case by (simp add: shiftedRight_refl)
next
  case (Cons sib rest)
  let ?s1 = "shiftIds horizontalSpacing (ident sib # descs ns (ident sib)) s"
  from Cons [of ?s1] obtain s2 where s2: "shiftSiblings key rest ns ?s1 = Some s2" "shiftedRight ?s1 s2"
    by blast
  from Cons [of s] obtain s3 where s3: "shiftSiblings key rest ns s = Some s3" "shiftedRight s s3"
    by blast
  have "shiftedRight s s2" using shiftedRight_shiftIds s2(2) by (rule shiftedRight_trans)
  with s2 s3 show ?case
    by (auto simp: wf_shiftBranchRight [OF assms] split: option.splits)
qed

lemma wf_ancestorWalk:
  assumes wf: "parentsFirst ns"
  shows "ns = pre @ cur # post \<Longrightarrow> length pre < k \<Longrightarrow>
         \<exists>s'. ancestorWalk k cur key ns s = Some s' \<and> shiftedRight s s'"
proof (induction k arbitrary: pre cur post s)
  case 0
  then show ?case by simp
next
  case (Suc k)
  show ?case
  proof (cases "parentId cur")
    case None
    then show ?thesis by (simp add: shiftedRight_refl)
  next
    case (Some p)
    show ?thesis
    proof (cases "p = [] \<or> find (\<lambda>n. ident n = p) ns = None")
      case True
      then show ?thesis using Some by (auto simp: shiftedRight_refl)
    next
      case False
      then obtain anc where anc: "find (\<lambda>n. ident n = p) ns = Some anc" and p: "p \<noteq> []" by auto
      from find_SomeD [OF anc] have a: "anc \<in> set ns" "ident anc = p" by auto
      from parentsFirst_split [of pre cur post] wf Suc.prems(1) Some a(2)
      have "anc \<notin> set (cur # post)" by auto
      with a(1) Suc.prems(1) have "anc \<in> set pre" by auto
      then obtain pre1 post1 where pre: "pre = pre1 @ anc # post1" by (auto dest: split_list)
      then have ns: "ns = pre1 @ anc # (post1 @ cur # post)" using Suc.prems(1) by simp
      have len: "length pre1 < k" using pre Suc.prems(2) by simp
      let ?sibs = "filter (\<lambda>n. parentId n = parentId anc \<and> ident n \<noteq> ident anc) ns"
      from wf_shiftSiblings [OF wf, of key ?sibs s] obtain s1 where
        s1: "shiftSiblings key ?sibs ns s = Some s1" "shiftedRight s s1" by blast
      from Suc.IH [OF ns len, of s1] obtain s2 where
        s2: "ancestorWalk k anc key ns s1 = Some s2" "shiftedRight s1 s2" by blast
      have "shiftedRight s s2" using s1(2) s2(2) by (rule shiftedRight_trans)
      then show ?thesis using Some p anc s1(1) s2(1) by simp
    qed
  qed
qed

lemma wf_shiftAllAncestorSiblings:
  assumes wf: "parentsFirst ns"
  shows "\<exists>s'. shiftAllAncestorSiblings nodeId ns s = Some s' \<and> shiftedRight s s'"
proof (cases "find (\<lambda>n. ident n = nodeId) ns")
  case None
  then show ?thesis by (simp add: shiftAllAncestorSiblings_def shiftedRight_refl)
next
  case (Some node)
  from find_SomeD [OF Some] have "node \<in> set ns" by simp
  then obtain pre post where ns: "ns = pre @ node # post" by (auto dest: split_list)
  then have "length pre < Suc (length ns)" by simp
  from wf_ancestorWalk [OF wf ns this] obtain w where
    w: "\<And>key. \<exists>s'. ancestorWalk (Suc (length ns)) node key ns s = Some s' \<and> shiftedRight s s'"
    by blast
  show ?thesis
    unfolding shiftAllAncestorSiblings_def Some
    using w by (auto simp: shiftedRight_refl split: option.splits simp del: ancestorWalk.simps)
qed

lemma wf_collisionPass:
  assumes wf: "parentsFirst ns"
  shows "\<exists>s' h'. collisionPass nk d ns ks s h = Some (s', h') \<and> shiftedRight s s'"
proof (induction ks arbitrary: s h)
  case Nil
  then show ?case by (simp add: shiftedRight_refl)
next
  case (Cons e rest)
  let ?s1 = "shiftIds horizontalSpacing (e # descs ns e) s"
  from Cons [of ?s1 True] obtain s2 h2 where
    s2: "collisionPass nk d ns rest ?s1 True = Some (s2, h2)" "shiftedRight ?s1 s2" by blast
  from Cons [of s h] obtain s3 h3 where
    s3: "collisionPass nk d ns rest s h = Some (s3, h3)" "shiftedRight s s3" by blast
  have "shiftedRight s s2" using shiftedRight_shiftIds s2(2) by (rule shiftedRight_trans)
  with s2 s3 show ?case
    by (auto simp: wf_shiftBranchRight [OF wf] split: option.splits)
qed

lemma wf_resolveCollisions:
  assumes wf: "parentsFirst ns"
  shows "\<exists>s'. resolveCollisions k nk d ns s = Some s' \<and> shiftedRight s s'"
proof (induction k arbitrary: s)
  case 0
  then show ?case by (simp add: shiftedRight_refl)
next
  case (Suc k)
  from wf_collisionPass [OF wf, of nk d "map fst s" s False] obtain s1 h1 where
    s1: "collisionPass nk d ns (map fst s) s False = Some (s1, h1)" "shiftedRight s s1" by blast
  from Suc [of s1] obtain s2 where s2: "resolveCollisions k nk d ns s1 = Some s2" "shiftedRight s1 s2"
    by blast
  have "shiftedRight s s2" using s1(2) s2(2) by (rule shiftedRight_trans)
  with s1 s2 show ?case by auto
qed

lemma wf_getRightmostDescendantX:
  "parentsFirst ns \<Longrightarrow> \<exists>r. getRightmostDescendantX i ns s = Some r"
  by (simp add: getRightmostDescendantX_def wf_getAllDescendants)

lemma wf_branchCandidate:
  "parentsFirst ns \<Longrightarrow> \<exists>x. branchCandidate node p pp ns s = Some (x, snd pp + verticalSpacing)"
  using wf_getRightmostDescendantX [of ns _ s]
  by (fastforce simp: branchCandidate_def split: option.splits)

lemma map_of_None_keys: "map_of s k = None \<longleftrightarrow> k \<notin> set (map fst s)"
  by (simp add: map_of_eq_None_iff)

lemma shiftedRight_None: "shiftedRight s s0 \<Longrightarrow> map_of s0 k = None \<longleftrightarrow> map_of s k = None"
  by (simp add: shiftedRight_def map_of_None_keys)

lemma wf_placeNode:
  assumes wf: "parentsFirst ns"
  shows "\<exists>s'. placeNode ns node s = Some s' \<and>
     ((map_of s (ident node) \<noteq> None \<and> s' = s) \<or>
      (map_of s (ident node) = None \<and> falsy (parentId node) \<and> s' = s @ [(ident node, (0, 0))]) \<or>
      (map_of s (ident node) = None \<and> (\<exists>p. parentId node = Some p \<and> p \<noteq> [] \<and> map_of s p = None) \<and> s' = s) \<or>
      (map_of s (ident node) = None \<and>
       (\<exists>p pp s0 x. parentId node = Some p \<and> p \<noteq> [] \<and> map_of s p = Some pp \<and> shiftedRight s s0 \<and>
          s' = s0 @ [(ident node, (x, snd pp + verticalSpacing))])))"
proof (cases "map_of s (ident node)")
  case (Some a)
  then show ?thesis by (auto simp: placeNode_def)
next
  case un: None
  show ?thesis
  proof (cases "falsy (parentId node)")
    case True
    then show ?thesis using un
      by (auto simp: placeNode_def falsy_def update_absent)
  next
    case False
    then obtain p where p: "parentId node = Some p" "p \<noteq> []" by (auto simp: falsy_def)
    show ?thesis
    proof (cases "map_of s p")
      case None
      then show ?thesis using un p by (auto simp: placeNode_def)
    next
      case (Some pp)
      show ?thesis
      proof (cases "siblingIndexOf node ns = 0")
        case True
        let ?d = "(fst pp, snd pp + verticalSpacing)"
        from wf_resolveCollisions [OF wf, of maxIterations "ident node" ?d s] obtain s0 where
          s0: "resolveCollisions maxIterations (ident node) ?d ns s = Some s0" "shiftedRight s s0" by blast
        have "map_of s0 (ident node) = None" using un shiftedRight_None [OF s0(2)] by simp
        then have "AList.update (ident node) ?d s0 = s0 @ [(ident node, ?d)]" by (rule update_absent)
        then have "placeNode ns node s = Some (s0 @ [(ident node, ?d)])"
          using un p Some True s0(1) by (simp add: placeNode_def)
        then show ?thesis using un p Some s0(2) by blast
      next
        case False
        from wf_branchCandidate [OF wf, of node p pp s] obtain x where
          c: "branchCandidate node p pp ns s = Some (x, snd pp + verticalSpacing)" by blast
        let ?d = "(x, snd pp + verticalSpacing)"
        from wf_shiftAllAncestorSiblings [OF wf, of "ident node" s] obtain s1 where
          s1: "shiftAllAncestorSiblings (ident node) ns s = Some s1" "shiftedRight s s1" by blast
        from wf_resolveCollisions [OF wf, of maxIterations "ident node" ?d s1] obtain s0 where
          s0: "resolveCollisions maxIterations (ident node) ?d ns s1 = Some s0" "shiftedRight s1 s0" by blast
        have sr: "shiftedRight s s0" using s1(2) s0(2) by (rule shiftedRight_trans)
        have "map_of s0 (ident node) = None" using un shiftedRight_None [OF sr] by simp
        then have "AList.update (ident node) ?d s0 = s0 @ [(ident node, ?d)]" by (rule update_absent)
        then have "placeNode ns node s = Some (s0 @ [(ident node, ?d)])"
          using un p Some False c s1(1) s0(1) by (simp add: placeNode_def)
        then show ?thesis using un p Some sr by blast
      qed
    qed
  qed
qed

lemma movedRight_append:
  "shiftedRight s s0 \<Longrightarrow> map_of s k = None \<Longrightarrow> movedRight s (s0 @ [(k, pos)])"
  unfolding shiftedRight_def movedRight_def by (auto simp: map_of_None_keys) fastforce







section \<open>The candidate of a new branch\<close>

lemma Max_set_Cons2: "Max (set (a # b # xs)) = Max (set (max a b # xs))"
  by (cases "xs = []") (auto simp: max.assoc)

lemma fold_rightmost:
  "fold (\<lambda>descId rightmostX.
           case map_of s descId of
             None \<Rightarrow> rightmostX
           | Some pos \<Rightarrow> if fst pos > rightmostX then fst pos else rightmostX) ds r0
   = Max (set (r0 # map fst (List.map_filter (map_of s) ds)))"
proof (induction ds arbitrary: r0)
  case Nil
  then show ?case by (simp add: List.map_filter_simps)
next
  case (Cons d ds)
  show ?case
  proof (cases "map_of s d")
    case None
    with Cons show ?thesis by (simp add: List.map_filter_simps)
  next
    case (Some pos)
    have "max r0 (fst pos) = (if fst pos > r0 then fst pos else r0)" by (auto simp: max_def)
    with Some Cons [of "max r0 (fst pos)"] show ?thesis
      by (simp only: fold_simps List.map_filter_simps option.case list.map Max_set_Cons2 o_apply)
  qed
qed

lemma wf_getRightmostDescendantX_Max:
  "parentsFirst ns \<Longrightarrow>
   getRightmostDescendantX i ns s
     = Some (Max (set ((case map_of s i of None \<Rightarrow> 0 | Some pos \<Rightarrow> fst pos)
                         # map fst (List.map_filter (map_of s) (descs ns i)))))"
  by (simp add: getRightmostDescendantX_def wf_getAllDescendants fold_rightmost)

lemma findIndex_takeWhile:
  "findIndex P xs = (if \<exists>x \<in> set xs. P x then int (length (takeWhile (\<lambda>x. \<not> P x) xs)) else - 1)"
  by (induction xs) (auto simp: Let_def)

lemma takeWhile_filter_commute:
  "\<forall>x \<in> set xs. \<not> P x \<longrightarrow> Q x \<Longrightarrow> takeWhile P (filter Q xs) = filter Q (takeWhile P xs)"
  by (induction xs) auto

lemma siblingIndexOf_rank:
  assumes wf: "parentsFirst ns" and n: "node \<in> set ns"
  shows "siblingIndexOf node ns = int (siblingRank ns node)"
proof -
  let ?Q = "\<lambda>n. parentId n = parentId node" and ?P = "\<lambda>n. ident n \<noteq> ident node"
  have "\<forall>x \<in> set ns. \<not> ?P x \<longrightarrow> ?Q x" using wf_inj_ident [OF wf _ n] by auto
  then have tw: "takeWhile ?P (filter ?Q ns) = filter ?Q (takeWhile ?P ns)"
    by (rule takeWhile_filter_commute)
  have ex: "\<exists>x \<in> set (filter ?Q ns). ident x = ident node" using n by auto
  show ?thesis
    unfolding siblingIndexOf_def siblingRank_def findIndex_takeWhile using ex by (simp add: tw)
qed

lemma siblingRank_by_timestamp:
  assumes wf: "parentsFirst ns" and n: "node \<in> set ns" and srt: "sorted (map timestamp ns)"
    and ties: "\<forall>n \<in> set ns. parentId n = parentId node \<and> n \<noteq> node \<longrightarrow> timestamp n \<noteq> timestamp node"
  shows "siblingRank ns node
         = length (filter (\<lambda>n. parentId n = parentId node \<and> timestamp n < timestamp node) ns)"
proof -
  let ?P = "\<lambda>n. ident n \<noteq> ident node"
  let ?R = "\<lambda>n. parentId n = parentId node \<and> timestamp n < timestamp node"
  let ?pre = "takeWhile ?P ns"
  have "dropWhile ?P ns \<noteq> []" using n by (auto simp: dropWhile_eq_Nil_conv)
  then obtain x post where dw: "dropWhile ?P ns = x # post" by (cases "dropWhile ?P ns") auto
  from hd_dropWhile [of ?P ns] dw have "ident x = ident node" by simp
  moreover have "x \<in> set ns" using set_dropWhileD [of x ?P ns] dw by simp
  ultimately have "x = node" using wf_inj_ident [OF wf _ n] by blast
  with dw have ns: "ns = ?pre @ node # post" using takeWhile_dropWhile_id [of ?P ns] by simp
  from srt have "sorted (map timestamp (?pre @ node # post))" using ns by simp
  then have le: "\<forall>a \<in> set ?pre. timestamp a \<le> timestamp node"
    and ge: "\<forall>b \<in> set post. timestamp node \<le> timestamp b"
    by (auto simp: sorted_append)
  have pre: "filter ?R ?pre = filter (\<lambda>n. parentId n = parentId node) ?pre"
  proof (rule filter_cong [OF refl])
    fix a assume a: "a \<in> set ?pre"
    then have "a \<in> set ns" "ident a \<noteq> ident node" by (auto dest: set_takeWhileD)
    with ties have "parentId a = parentId node \<Longrightarrow> timestamp a \<noteq> timestamp node" by auto
    with le a show "?R a \<longleftrightarrow> parentId a = parentId node" by fastforce
  qed
  have post: "filter ?R (node # post) = []" using ge by (auto simp: filter_empty_conv)
  have "filter ?R ns = filter ?R ?pre @ filter ?R (node # post)"
    by (subst ns) (simp only: filter_append)
  with pre post show ?thesis by (simp add: siblingRank_def)
qed

lemma placed_descendants_set:
  assumes "parentsFirst ns"
  shows "set (map fst (List.map_filter (map_of s) (descs ns p)))
         = {fst q |q d. isDescendant ns p d \<and> map_of s d = Some q}"
  using wf_descs_iff [OF assms, of _ p] by (force simp: map_filter_def image_iff)

text \<open>
  C4: placing an unplaced node of the snapshot whose sibling rank \<open>k\<close> (the number of
  nodes sharing its parent that come before it in the creation-ordered list) is greater
  than 0, under a parent of the snapshot that has a locked position.  The call returns and
  locks the node at
  \<open>x = max (parent's x + k * horizontalSpacing) (rightmost + horizontalSpacing)\<close>,
  \<open>y = parent's y + verticalSpacing\<close>, where \<open>rightmost\<close> is the greatest \<open>x\<close> among
  the parent and the descendants of the parent (at any depth) that have an entry, all read
  in the store as it is when the candidate is computed.  Ancestor-sibling displacement and
  collision resolution move only entries that were there before, to the right by multiples
  of \<open>horizontalSpacing\<close>, keeping their \<open>y\<close>.  When the list is sorted by timestamp and no
  other child of the parent has the node's timestamp, \<open>k\<close> is the number of children of the
  parent with a smaller timestamp.
\<close>

theorem placeNode_branch_candidate:
  assumes wf: "parentsFirst sortedNodes"
    and node: "node \<in> set sortedNodes"
    and unplaced: "map_of s (ident node) = None"
    and parent: "parentId node = Some p" "p \<noteq> []" "p \<in> ident ` set sortedNodes"
    and parentPos: "map_of s p = Some parentPos"
    and branch: "0 < siblingRank sortedNodes node"
  shows "\<exists>s'. placeNode sortedNodes node s = Some s' \<and>
           map_of s' (ident node)
             = Some (max (fst parentPos + int (siblingRank sortedNodes node) * horizontalSpacing)
                         (Max (insert (fst parentPos)
                                 {fst q |q d. isDescendant sortedNodes p d \<and> map_of s d = Some q})
                            + horizontalSpacing),
                     snd parentPos + verticalSpacing) \<and>
           (\<forall>k q. map_of s k = Some q \<longrightarrow>
              (\<exists>m::nat. map_of s' k = Some (fst q + int m * horizontalSpacing, snd q))) \<and>
           (sorted (map timestamp sortedNodes) \<and>
            (\<forall>n \<in> set sortedNodes. parentId n = Some p \<and> n \<noteq> node \<longrightarrow> timestamp n \<noteq> timestamp node) \<longrightarrow>
            siblingRank sortedNodes node
              = length (filter (\<lambda>n. parentId n = Some p \<and> timestamp n < timestamp node) sortedNodes))"
proof -
  let ?ds = "descs sortedNodes p"
  let ?k = "int (siblingRank sortedNodes node)"
  let ?rm = "Max (set (fst parentPos # map fst (List.map_filter (map_of s) ?ds)))"
  let ?d = "(max (fst parentPos + ?k * horizontalSpacing) (?rm + horizontalSpacing),
             snd parentPos + verticalSpacing)"
  have si: "siblingIndexOf node sortedNodes = ?k" using wf node by (rule siblingIndexOf_rank)
  from parent(3) obtain par where par: "find (\<lambda>n. ident n = p) sortedNodes = Some par"
    using find_Some_ex [of _ sortedNodes "\<lambda>n. ident n = p"] by auto
  from find_SomeD [OF par] have ip: "ident par = p" by simp
  have c: "branchCandidate node p parentPos sortedNodes s = Some ?d"
    by (simp add: branchCandidate_def par ip wf_getRightmostDescendantX_Max [OF wf] parentPos si)
  from wf_shiftAllAncestorSiblings [OF wf, of "ident node" s] obtain s1 where
    s1: "shiftAllAncestorSiblings (ident node) sortedNodes s = Some s1" "shiftedRight s s1" by blast
  from wf_resolveCollisions [OF wf, of maxIterations "ident node" ?d s1] obtain s0 where
    s0: "resolveCollisions maxIterations (ident node) ?d sortedNodes s1 = Some s0" "shiftedRight s1 s0" by blast
  have sr: "shiftedRight s s0" using s1(2) s0(2) by (rule shiftedRight_trans)
  have n0: "map_of s0 (ident node) = None" using unplaced shiftedRight_None [OF sr] by simp
  then have "AList.update (ident node) ?d s0 = s0 @ [(ident node, ?d)]" by (rule update_absent)
  moreover from branch have "siblingIndexOf node sortedNodes \<noteq> 0" unfolding si by simp
  ultimately have pl: "placeNode sortedNodes node s = Some (s0 @ [(ident node, ?d)])"
    using unplaced parent parentPos c s1(1) s0(1) by (simp add: placeNode_def)
  have at: "map_of (s0 @ [(ident node, ?d)]) (ident node) = Some ?d"
    using n0 by (simp add: map_add_def)
  have rm: "?rm = Max (insert (fst parentPos)
                        {fst q |q d. isDescendant sortedNodes p d \<and> map_of s d = Some q})"
    using placed_descendants_set [OF wf, of s p] by (simp only: list.set)
  have mv: "movedRight s (s0 @ [(ident node, ?d)])"
    using sr unplaced by (rule movedRight_append)
  have ts: "siblingRank sortedNodes node
              = length (filter (\<lambda>n. parentId n = Some p \<and> timestamp n < timestamp node) sortedNodes)"
    if "sorted (map timestamp sortedNodes)"
      "\<forall>n \<in> set sortedNodes. parentId n = Some p \<and> n \<noteq> node \<longrightarrow> timestamp n \<noteq> timestamp node"
    using siblingRank_by_timestamp [OF wf node that(1)] that(2) parent(1) by simp
  from pl at mv have "\<exists>s'. placeNode sortedNodes node s = Some s' \<and>
      map_of s' (ident node) = Some ?d \<and> movedRight s s'" by blast
  with ts show ?thesis unfolding rm movedRight_def by blast
qed


lemma wideNodes_wf: "parentsFirst wideNodes"
  by (simp add: wideNodes_def)

lemma wideNodes_descs_root: "descs wideNodes ''R'' = [''A'', ''B'', ''C'', ''C1'']"
  by code_simp

theorem placeNode_branch_candidate_witness:
  "parentsFirst wideNodes \<and>
   \<lparr>ident = ''C'', parentId = Some ''R'', timestamp = 3\<rparr> \<in> set wideNodes \<and>
   map_of [(''R'', (0, 0)), (''A'', (0, 180)), (''B'', (100::int, 180::int))] ''C'' = None \<and>
   map_of [(''R'', (0, 0)), (''A'', (0, 180)), (''B'', (450, 180)), (''C1'', (1000::int, 360::int))] ''C'' = None \<and>
   ''R'' \<noteq> [] \<and> ''R'' \<in> ident ` set wideNodes \<and>
   sorted (map timestamp wideNodes) \<and>
   siblingRank wideNodes \<lparr>ident = ''C'', parentId = Some ''R'', timestamp = 3\<rparr> = 2 \<and>
   length (filter (\<lambda>n. parentId n = Some ''R'' \<and> timestamp n < 3) wideNodes) = 2 \<and>
   (\<exists>s'. placeNode wideNodes \<lparr>ident = ''C'', parentId = Some ''R'', timestamp = 3\<rparr>
              [(''R'', (0, 0)), (''A'', (0, 180)), (''B'', (100, 180))] = Some s' \<and>
         map_of s' ''C'' = Some (900, 180)) \<and>
   (\<exists>s'. placeNode wideNodes \<lparr>ident = ''C'', parentId = Some ''R'', timestamp = 3\<rparr>
              [(''R'', (0, 0)), (''A'', (0, 180)), (''B'', (450, 180)), (''C1'', (1000, 360))] = Some s' \<and>
         map_of s' ''C'' = Some (1450, 180))"
proof -
  let ?n = "\<lparr>ident = ''C'', parentId = Some ''R'', timestamp = 3\<rparr>"
  let ?s1 = "[(''R'', (0, 0)), (''A'', (0, 180)), (''B'', (100::int, 180::int))]"
  let ?s2 = "[(''R'', (0, 0)), (''A'', (0, 180)), (''B'', (450, 180)), (''C1'', (1000::int, 360::int))]"
  note wf = wideNodes_wf
  have h2: "?n \<in> set wideNodes" by (simp add: wideNodes_def)
  have h3: "map_of ?s1 (ident ?n) = None" "map_of ?s2 (ident ?n) = None" by simp_all
  have h4: "parentId ?n = Some ''R''" "''R'' \<noteq> []" "''R'' \<in> ident ` set wideNodes"
    by (simp_all add: wideNodes_def)
  have h5: "map_of ?s1 ''R'' = Some (0, 0)" "map_of ?s2 ''R'' = Some (0, 0)" by simp_all
  have rk: "siblingRank wideNodes ?n = 2" by (simp add: siblingRank_def wideNodes_def)
  then have h6: "0 < siblingRank wideNodes ?n" by simp
  have srt: "sorted (map timestamp wideNodes)" by (simp add: wideNodes_def)
  have cnt: "length (filter (\<lambda>n. parentId n = Some ''R'' \<and> timestamp n < 3) wideNodes) = 2"
    by (simp add: wideNodes_def)
  note set1 = placed_descendants_set [OF wf, of ?s1 "''R''", symmetric]
  note set2 = placed_descendants_set [OF wf, of ?s2 "''R''", symmetric]
  from placeNode_branch_candidate [OF wf h2 h3(1) h4 h5(1) h6]
  have 1: "\<exists>s'. placeNode wideNodes ?n ?s1 = Some s' \<and> map_of s' ''C'' = Some (900, 180)"
    unfolding set1 rk wideNodes_descs_root
    by (auto simp: List.map_filter_simps horizontalSpacing_def verticalSpacing_def)
  from placeNode_branch_candidate [OF wf h2 h3(2) h4 h5(2) h6]
  have 2: "\<exists>s'. placeNode wideNodes ?n ?s2 = Some s' \<and> map_of s' ''C'' = Some (1450, 180)"
    unfolding set2 rk wideNodes_descs_root
    by (auto simp: List.map_filter_simps horizontalSpacing_def verticalSpacing_def)
  from wf h2 h3 h4 srt rk cnt 1 2 show ?thesis by simp
qed

section \<open>Vertical coordinates\<close>

lemma yKept_refl: "yKept ns s s"
  unfolding yKept_def by (auto intro: exI [of _ "fst _"])

lemma yKept_trans:
  assumes "yKept ns s s1" and "yKept ns s1 s2"
  shows "yKept ns s s2"
proof -
  have 1: "\<exists>x'. map_of s2 k = Some (x', snd pos)" if "map_of s k = Some pos" for k pos
  proof -
    from assms(1) that obtain x1 where "map_of s1 k = Some (x1, snd pos)"
      unfolding yKept_def by blast
    with assms(2) show ?thesis unfolding yKept_def by fastforce
  qed
  have 2: "yWritten ns s2 k pos'" if "map_of s k = None" "map_of s2 k = Some pos'" for k pos'
  proof (cases "map_of s1 k")
    case None
    with assms(2) that(2) show ?thesis unfolding yKept_def by blast
  next
    case (Some pos1)
    with assms(1) that(1) have w: "yWritten ns s1 k pos1" unfolding yKept_def by blast
    from assms(2) Some obtain x' where "map_of s2 k = Some (x', snd pos1)"
      unfolding yKept_def by blast
    with that(2) have y: "snd pos' = snd pos1" by auto
    from w obtain n where n: "n \<in> set ns" "ident n = k"
      and c: "falsy (parentId n) \<and> snd pos1 = 0 \<or>
         (\<exists>p pp. parentId n = Some p \<and> p \<noteq> [] \<and> map_of s1 p = Some pp \<and>
                 snd pos1 = snd pp + verticalSpacing)"
      unfolding yWritten_def by blast
    from c show ?thesis
    proof
      assume "falsy (parentId n) \<and> snd pos1 = 0"
      with n y show ?thesis unfolding yWritten_def by auto
    next
      assume "\<exists>p pp. parentId n = Some p \<and> p \<noteq> [] \<and> map_of s1 p = Some pp \<and>
                 snd pos1 = snd pp + verticalSpacing"
      then obtain p pp where p: "parentId n = Some p" "p \<noteq> []" "map_of s1 p = Some pp"
        "snd pos1 = snd pp + verticalSpacing" by blast
      from assms(2) p(3) obtain x2 where "map_of s2 p = Some (x2, snd pp)"
        unfolding yKept_def by blast
      with n y p show ?thesis unfolding yWritten_def by auto
    qed
  qed
  from 1 2 show ?thesis unfolding yKept_def by blast
qed

lemma movedRight_yKept_old:
  "movedRight s s' \<Longrightarrow> map_of s k = Some pos \<Longrightarrow> \<exists>x'. map_of s' k = Some (x', snd pos)"
  unfolding movedRight_def by blast

lemma wf_placeNode_yKept:
  assumes wf: "parentsFirst ns" and mem: "node \<in> set ns"
  shows "\<exists>s'. placeNode ns node s = Some s' \<and> yKept ns s s'"
proof -
  from wf_placeNode [OF wf, of node s] obtain s' where pl: "placeNode ns node s = Some s'"
    and c: "(map_of s (ident node) \<noteq> None \<and> s' = s) \<or>
      (map_of s (ident node) = None \<and> falsy (parentId node) \<and> s' = s @ [(ident node, (0, 0))]) \<or>
      (map_of s (ident node) = None \<and> (\<exists>p. parentId node = Some p \<and> p \<noteq> [] \<and> map_of s p = None) \<and> s' = s) \<or>
      (map_of s (ident node) = None \<and>
       (\<exists>p pp s0 x. parentId node = Some p \<and> p \<noteq> [] \<and> map_of s p = Some pp \<and> shiftedRight s s0 \<and>
          s' = s0 @ [(ident node, (x, snd pp + verticalSpacing))]))"
    by blast
  have "yKept ns s s'"
  proof -
    consider (same) "s' = s"
      | (root) "map_of s (ident node) = None" "falsy (parentId node)" "s' = s @ [(ident node, (0, 0))]"
      | (child) p pp s0 x where "map_of s (ident node) = None" "parentId node = Some p" "p \<noteq> []"
          "map_of s p = Some pp" "shiftedRight s s0" "s' = s0 @ [(ident node, (x, snd pp + verticalSpacing))]"
      using c by (elim disjE conjE exE) (blast+)
    then show ?thesis
    proof cases
      case same
      then show ?thesis by (simp add: yKept_refl)
    next
      case root
      have "movedRight s s'" using root movedRight_append [OF shiftedRight_refl] by simp
      then have 1: "\<forall>k pos. map_of s k = Some pos \<longrightarrow> (\<exists>x'. map_of s' k = Some (x', snd pos))"
        using movedRight_yKept_old by blast
      have 2: "yWritten ns s' k pos'" if "map_of s k = None" "map_of s' k = Some pos'" for k pos'
      proof -
        from that root(3) have "k = ident node" "pos' = (0, 0)"
          by (auto simp: map_add_def split: option.splits if_splits)
        with mem root(2) show ?thesis unfolding yWritten_def by auto
      qed
      from 1 2 show ?thesis unfolding yKept_def by blast
    next
      case child
      have mv: "movedRight s s'" using child movedRight_append by simp
      then have 1: "\<forall>k pos. map_of s k = Some pos \<longrightarrow> (\<exists>x'. map_of s' k = Some (x', snd pos))"
        using movedRight_yKept_old by blast
      from movedRight_yKept_old [OF mv child(4)] obtain xp where xp: "map_of s' p = Some (xp, snd pp)"
        by blast
      have keys: "map_of s0 k = None \<longleftrightarrow> map_of s k = None" for k
        using shiftedRight_None [OF child(5)] by simp
      have 2: "yWritten ns s' k pos'" if "map_of s k = None" "map_of s' k = Some pos'" for k pos'
      proof -
        from that child(6) keys [of k] have "k = ident node" "pos' = (x, snd pp + verticalSpacing)"
          by (auto simp: map_add_def split: option.splits if_splits)
        with mem child(2,3) xp show ?thesis unfolding yWritten_def by auto
      qed
      from 1 2 show ?thesis unfolding yKept_def by blast
    qed
  qed
  with pl show ?thesis by blast
qed

lemma wf_placeAll_yKept:
  assumes wf: "parentsFirst ns"
  shows "set rest \<subseteq> set ns \<Longrightarrow> \<exists>s'. placeAll ns rest s = Some s' \<and> yKept ns s s'"
proof (induction rest arbitrary: s)
  case Nil
  then show ?case by (simp add: yKept_refl)
next
  case (Cons node rest)
  from Cons.prems have "node \<in> set ns" by simp
  from wf_placeNode_yKept [OF wf this, of s] obtain s1 where
    s1: "placeNode ns node s = Some s1" "yKept ns s s1" by blast
  from Cons.IH [of s1] Cons.prems obtain s2 where
    s2: "placeAll ns rest s1 = Some s2" "yKept ns s1 s2" by auto
  have "yKept ns s s2" using s1(2) s2(2) by (rule yKept_trans)
  with s1 s2 show ?case by simp
qed

lemma treeDepth_snoc:
  "treeDepth (ns @ [l]) i =
     (if ident l = i
      then (case parentId l of None \<Rightarrow> 0 | Some p \<Rightarrow> if p = [] then 0 else Suc (treeDepth ns p))
      else treeDepth ns i)"
  by (auto simp: treeDepth_def split: option.splits)

lemma treeDepth_node:
  "parentsFirst ns \<Longrightarrow> n \<in> set ns \<Longrightarrow>
   treeDepth ns (ident n) =
     (case parentId n of None \<Rightarrow> 0 | Some p \<Rightarrow> if p = [] then 0 else Suc (treeDepth ns p))"
proof (induction ns rule: rev_induct)
  case Nil
  then show ?case by simp
next
  case (snoc l ns)
  from snoc.prems(1) have pf: "parentsFirst ns" and fresh: "ident l \<notin> ident ` set ns"
    and leaf: "\<forall>m \<in> set (ns @ [l]). parentId m \<noteq> Some (ident l)"
    by (auto simp: parentsFirst_snoc)
  show ?case
  proof (cases "n \<in> set ns")
    case True
    with fresh have ne: "ident l \<noteq> ident n" by auto
    from leaf True have "parentId n \<noteq> Some (ident l)" by auto
    with snoc.IH [OF pf True] ne show ?thesis
      by (auto simp: treeDepth_snoc split: option.splits)
  next
    case False
    with snoc.prems(2) have "n = l" by simp
    moreover from leaf have "parentId l \<noteq> Some (ident l)" by auto
    ultimately show ?thesis by (auto simp: treeDepth_snoc split: option.splits)
  qed
qed

lemma parentsFirst_prefix: "parentsFirst (xs @ ys) \<Longrightarrow> parentsFirst xs"
  by (induction xs) (auto simp: list_all_iff)

lemma depthInv_snoc:
  assumes "parentsFirst (ns @ [l])" and "depthInv ns s"
  shows "depthInv (ns @ [l]) s"
proof -
  from assms(1) have fresh: "ident l \<notin> ident ` set ns" by (simp add: parentsFirst_snoc)
  have "k \<in> ident ` set (ns @ [l]) \<and> snd pos = int (treeDepth (ns @ [l]) k) * verticalSpacing"
    if "map_of s k = Some pos" for k pos
  proof -
    from assms(2) that have k: "k \<in> ident ` set ns" "snd pos = int (treeDepth ns k) * verticalSpacing"
      unfolding depthInv_def by blast+
    with fresh have "ident l \<noteq> k" by auto
    with k show ?thesis by (auto simp: treeDepth_snoc)
  qed
  then show ?thesis unfolding depthInv_def by blast
qed

lemma wf_placeNode_depthInv:
  assumes wf: "parentsFirst ns" and mem: "node \<in> set ns" and inv: "depthInv ns s"
  shows "\<exists>s'. placeNode ns node s = Some s' \<and> depthInv ns s'"
proof -
  from wf_placeNode [OF wf, of node s] obtain s' where pl: "placeNode ns node s = Some s'"
    and c: "(map_of s (ident node) \<noteq> None \<and> s' = s) \<or>
      (map_of s (ident node) = None \<and> falsy (parentId node) \<and> s' = s @ [(ident node, (0, 0))]) \<or>
      (map_of s (ident node) = None \<and> (\<exists>p. parentId node = Some p \<and> p \<noteq> [] \<and> map_of s p = None) \<and> s' = s) \<or>
      (map_of s (ident node) = None \<and>
       (\<exists>p pp s0 x. parentId node = Some p \<and> p \<noteq> [] \<and> map_of s p = Some pp \<and> shiftedRight s s0 \<and>
          s' = s0 @ [(ident node, (x, snd pp + verticalSpacing))]))"
    by blast
  have "depthInv ns s'"
  proof -
    consider (same) "s' = s"
      | (root) "map_of s (ident node) = None" "falsy (parentId node)" "s' = s @ [(ident node, (0, 0))]"
      | (child) p pp s0 x where "map_of s (ident node) = None" "parentId node = Some p" "p \<noteq> []"
          "map_of s p = Some pp" "shiftedRight s s0" "s' = s0 @ [(ident node, (x, snd pp + verticalSpacing))]"
      using c by (elim disjE conjE exE) (blast+)
    then show ?thesis
    proof cases
      case same
      with inv show ?thesis by simp
    next
      case root
      have d0: "treeDepth ns (ident node) = 0"
        using treeDepth_node [OF wf mem] root(2) by (auto simp: falsy_def)
      have "k \<in> ident ` set ns \<and> snd pos = int (treeDepth ns k) * verticalSpacing"
        if "map_of s' k = Some pos" for k pos
      proof (cases "map_of s k")
        case None
        with that root(3) have "k = ident node" "pos = (0, 0)"
          by (auto simp: map_add_def split: option.splits if_splits)
        with mem d0 show ?thesis by simp
      next
        case (Some q)
        with that root(3) have "pos = q" by (simp add: map_add_def)
        with inv Some show ?thesis unfolding depthInv_def by blast
      qed
      then show ?thesis unfolding depthInv_def by blast
    next
      case child
      from inv child(4) have dp: "snd pp = int (treeDepth ns p) * verticalSpacing"
        unfolding depthInv_def by blast
      have dn: "treeDepth ns (ident node) = Suc (treeDepth ns p)"
        using treeDepth_node [OF wf mem] child(2,3) by simp
      have keys: "map_of s0 k = None \<longleftrightarrow> map_of s k = None" for k
        using shiftedRight_None [OF child(5)] by simp
      have "k \<in> ident ` set ns \<and> snd pos = int (treeDepth ns k) * verticalSpacing"
        if "map_of s' k = Some pos" for k pos
      proof (cases "map_of s k")
        case None
        with that child(6) keys [of k] have "k = ident node" "pos = (x, snd pp + verticalSpacing)"
          by (auto simp: map_add_def split: option.splits if_splits)
        with mem dn dp show ?thesis by (simp add: algebra_simps)
      next
        case (Some q)
        from child(5) Some obtain x' where "map_of s0 k = Some (x', snd q)"
          unfolding shiftedRight_def movedRight_def by blast
        with that child(6) have e: "snd pos = snd q" by (auto simp: map_add_def)
        from inv Some have "k \<in> ident ` set ns \<and> snd q = int (treeDepth ns k) * verticalSpacing"
          unfolding depthInv_def by blast
        with e show ?thesis by simp
      qed
      then show ?thesis unfolding depthInv_def by blast
    qed
  qed
  with pl show ?thesis by blast
qed

lemma wf_placeAll_depthInv:
  assumes wf: "parentsFirst ns"
  shows "set rest \<subseteq> set ns \<Longrightarrow> depthInv ns s \<Longrightarrow> \<exists>s'. placeAll ns rest s = Some s' \<and> depthInv ns s'"
proof (induction rest arbitrary: s)
  case Nil
  then show ?case by simp
next
  case (Cons node rest)
  from Cons.prems have "node \<in> set ns" by simp
  from wf_placeNode_depthInv [OF wf this Cons.prems(2)] obtain s1 where
    s1: "placeNode ns node s = Some s1" "depthInv ns s1" by blast
  from Cons.IH [OF _ s1(2)] Cons.prems(1) obtain s2 where
    s2: "placeAll ns rest s1 = Some s2" "depthInv ns s2" by auto
  with s1 show ?case by simp
qed

lemma sortedNodesOf_sorted:
  "sorted (map timestamp ns) \<Longrightarrow> sortedNodesOf \<lparr>nodes = ns, activeNodeId = a\<rparr> = ns"
  by (simp add: sortedNodesOf_def sort_key_id_if_sorted)

lemma layoutAfterEach_depthInv:
  "parentsFirst (present @ pending) \<Longrightarrow> sorted (map timestamp (present @ pending)) \<Longrightarrow>
   depthInv present s \<Longrightarrow>
   \<exists>s'. layoutAfterEach present pending s = Some s' \<and> depthInv (present @ pending) s'"
proof (induction pending arbitrary: present s)
  case Nil
  then show ?case by simp
next
  case (Cons n rest)
  let ?p = "present @ [n]"
  from Cons.prems(1) have wf: "parentsFirst ?p"
    using parentsFirst_prefix [of ?p rest] by simp
  from Cons.prems(2) have srt: "sorted (map timestamp ?p)"
    by (simp add: sorted_append)
  have inv: "depthInv ?p s" using wf Cons.prems(3) by (rule depthInv_snoc)
  from wf_placeAll_depthInv [OF wf _ inv, of ?p] obtain s1 where
    s1: "placeAll ?p ?p s = Some s1" "depthInv ?p s1" by blast
  have lp: "layoutPass \<lparr>nodes = ?p, activeNodeId = Some (ident n)\<rparr> s = Some s1"
    using s1(1) by (simp add: layoutPass_def sortedNodesOf_sorted [OF srt])
  from Cons.IH [of ?p s1] Cons.prems s1(2) obtain s2 where
    "layoutAfterEach ?p rest s1 = Some s2" "depthInv (?p @ rest) s2" by auto
  with lp show ?case by simp
qed

lemma parentsFirst_filter: "parentsFirst ns \<Longrightarrow> parentsFirst (filter P ns)"
  by (induction ns) (auto simp: list_all_iff)

lemma delete_depthInv:
  assumes wf: "parentsFirst (nodes td)" and chrono: "sorted (map timestamp (nodes td))"
    and inv: "depthInv (nodes td) s"
  shows "\<exists>td' s1. handleDeleteNode i td s = Some (td', s1) \<and> depthInv (nodes td') s1 \<and>
           parentsFirst (nodes td') \<and> sorted (map timestamp (nodes td'))"
proof (cases "i \<in> ident ` set (nodes td)")
  case False
  then have "find (\<lambda>n. ident n = i) (nodes td) = None" by (auto simp: find_None_iff)
  then have "handleDeleteNode i td s = Some (td, s)" by (simp add: handleDeleteNode_def)
  with assms show ?thesis by blast
next
  case True
  from handleDeleteNode_facts [OF wf True chrono, of s]
  obtain ds remaining restored newActive where
    h: "handleDeleteNode i td s = Some (td\<lparr>nodes := remaining, activeNodeId := newActive\<rparr>, restored)"
    and rem: "remaining = filter (\<lambda>n. ident n \<notin> set (i # ds)) (nodes td)"
    and rst: "\<forall>k pos. map_of restored k = Some pos \<longrightarrow>
        map_of s k = Some pos \<and> (\<exists>r. find (\<lambda>n. falsy (parentId n)) remaining = Some r \<and> k = ident r)"
    by blast
  have wf': "parentsFirst remaining" unfolding rem using wf by (rule parentsFirst_filter)
  have srt': "sorted (map timestamp remaining)" unfolding rem using chrono by (rule sorted_filter)
  have "k \<in> ident ` set remaining \<and> snd pos = int (treeDepth remaining k) * verticalSpacing"
    if "map_of restored k = Some pos" for k pos
  proof -
    from rst that obtain r where s: "map_of s k = Some pos"
      and r: "find (\<lambda>n. falsy (parentId n)) remaining = Some r" "k = ident r" by blast
    from find_SomeD [OF r(1)] have r': "r \<in> set remaining" "falsy (parentId r)" by auto
    then have "r \<in> set (nodes td)" by (simp add: rem)
    from treeDepth_node [OF wf this] r'(2) have "treeDepth (nodes td) (ident r) = 0"
      by (auto simp: falsy_def)
    moreover from treeDepth_node [OF wf' r'(1)] r'(2) have "treeDepth remaining (ident r) = 0"
      by (auto simp: falsy_def)
    moreover from inv s have "snd pos = int (treeDepth (nodes td) k) * verticalSpacing"
      unfolding depthInv_def by blast
    ultimately show ?thesis using r(2) r'(1) by simp
  qed
  then have "depthInv remaining restored" unfolding depthInv_def by blast
  with h wf' srt' show ?thesis by auto
qed

lemma wf_layoutPass_depthInv:
  assumes wf: "parentsFirst ns" and chrono: "sorted (map timestamp ns)" and inv: "depthInv ns s"
  shows "\<exists>s'. layoutPass \<lparr>nodes = ns, activeNodeId = a\<rparr> s = Some s' \<and> depthInv ns s'"
  using wf_placeAll_depthInv [OF wf _ inv, of ns]
  by (simp add: layoutPass_def sortedNodesOf_sorted [OF chrono])

text \<open>
  C10: on a well-formed snapshot kept in creation order a layout pass returns, keeps the
  \<open>y\<close> of every entry it finds, and writes the \<open>y\<close> of an entry it adds as \<open>0\<close> for a
  parentless node and as the parent's \<open>y\<close> plus \<open>verticalSpacing\<close> otherwise: shifts are
  horizontal.  Hence \<open>y = depth * verticalSpacing\<close> for every entry is kept by a layout
  pass, by adding a node to the snapshot and by \<open>handleDeleteNode\<close>, and it holds after any
  sequence of insertions, each followed by a pass, that starts from the empty store.
\<close>

theorem y_written_once_and_equal_to_depth:
  assumes wf: "parentsFirst ns" and chrono: "sorted (map timestamp ns)"
  shows "(\<exists>s'. layoutPass \<lparr>nodes = ns, activeNodeId = a\<rparr> s = Some s' \<and>
            (\<forall>k pos. map_of s k = Some pos \<longrightarrow> (\<exists>x'. map_of s' k = Some (x', snd pos))) \<and>
            (\<forall>k pos'. map_of s k = None \<and> map_of s' k = Some pos' \<longrightarrow>
               (\<exists>n \<in> set ns. ident n = k \<and>
                  (falsy (parentId n) \<and> snd pos' = 0 \<or>
                   (\<exists>p pp. parentId n = Some p \<and> p \<noteq> [] \<and> map_of s' p = Some pp \<and>
                           snd pos' = snd pp + verticalSpacing))))) \<and>
         (depthInv ns s \<longrightarrow>
            (\<exists>s'. layoutPass \<lparr>nodes = ns, activeNodeId = a\<rparr> s = Some s' \<and> depthInv ns s')) \<and>
         (depthInv ns s \<and> parentsFirst (ns @ [n]) \<longrightarrow> depthInv (ns @ [n]) s) \<and>
         (depthInv ns s \<longrightarrow>
            (\<exists>td' s1. handleDeleteNode i \<lparr>nodes = ns, activeNodeId = a\<rparr> s = Some (td', s1) \<and>
                depthInv (nodes td') s1 \<and> parentsFirst (nodes td') \<and> sorted (map timestamp (nodes td')))) \<and>
         (\<exists>s0. layoutAfterEach [] ns [] = Some s0 \<and> depthInv ns s0)"
proof -
  have A: "\<exists>s'. layoutPass \<lparr>nodes = ns, activeNodeId = a\<rparr> s = Some s' \<and> yKept ns s s'"
    using wf_placeAll_yKept [OF wf, of ns s]
    by (simp add: layoutPass_def sortedNodesOf_sorted [OF chrono])
  have I1: "depthInv ns s \<longrightarrow>
            (\<exists>s'. layoutPass \<lparr>nodes = ns, activeNodeId = a\<rparr> s = Some s' \<and> depthInv ns s')"
    using wf_layoutPass_depthInv [OF wf chrono] by blast
  have I2: "depthInv ns s \<and> parentsFirst (ns @ [n]) \<longrightarrow> depthInv (ns @ [n]) s"
    using depthInv_snoc by blast
  have I3: "depthInv ns s \<longrightarrow>
            (\<exists>td' s1. handleDeleteNode i \<lparr>nodes = ns, activeNodeId = a\<rparr> s = Some (td', s1) \<and>
                depthInv (nodes td') s1 \<and> parentsFirst (nodes td') \<and> sorted (map timestamp (nodes td')))"
    using delete_depthInv [of "\<lparr>nodes = ns, activeNodeId = a\<rparr>" s i] wf chrono by simp
  have "depthInv [] []" by (simp add: depthInv_def)
  from layoutAfterEach_depthInv [of "[]" ns "[]", OF _ _ this] wf chrono
  have B: "\<exists>s0. layoutAfterEach [] ns [] = Some s0 \<and> depthInv ns s0" by simp
  from A I1 I2 I3 B show ?thesis unfolding yKept_def yWritten_def by blast
qed

lemma exampleNodes_session: "layoutAfterEach [] exampleNodes [] = Some exampleStore"
  by code_simp

theorem y_written_once_and_equal_to_depth_witness:
  "parentsFirst exampleNodes \<and> sorted (map timestamp exampleNodes) \<and>
   layoutAfterEach [] exampleNodes [] = Some exampleStore \<and>
   map_of exampleStore ''A1'' = Some (0, 360) \<and>
   360 = int (treeDepth exampleNodes ''A1'') * verticalSpacing"
proof -
  have h1: "parentsFirst exampleNodes" by (rule exampleNodes_wf)
  have h2: "sorted (map timestamp exampleNodes)" by (simp add: exampleNodes_def)
  have m: "map_of exampleStore ''A1'' = Some (0, 360)" by (simp add: exampleStore_def)
  from y_written_once_and_equal_to_depth [OF h1 h2]
  obtain s0 where "layoutAfterEach [] exampleNodes [] = Some s0" "depthInv exampleNodes s0" by blast
  with exampleNodes_session have "depthInv exampleNodes exampleStore" by simp
  with m have "snd (0::int, 360::int) = int (treeDepth exampleNodes ''A1'') * verticalSpacing"
    unfolding depthInv_def by blast
  with h1 h2 m exampleNodes_session show ?thesis by simp
qed

section \<open>Snapshots with a dangling parent\<close>

lemma find_rev_distinct:
  assumes "distinct (map ident ns)"
  shows "find (\<lambda>n. ident n = c) (rev ns) = find (\<lambda>n. ident n = c) ns"
proof (cases "find (\<lambda>n. ident n = c) ns")
  case None
  then have "find (\<lambda>n. ident n = c) (rev ns) = None" by (auto simp: find_None_iff)
  with None show ?thesis by simp
next
  case (Some n)
  from find_SomeD [OF Some] have n: "n \<in> set ns" "ident n = c" by auto
  have "distinct (map ident (rev ns))" using assms by (simp add: rev_map [symmetric])
  from find_unique [OF this, of n] n Some show ?thesis by simp
qed

lemma wf_activePathWalk_end:
  "cur = None \<or> cur = Some [] \<Longrightarrow> 0 < k \<Longrightarrow> activePathWalk k cur nodeId ns \<noteq> None"
  by (cases k) auto

lemma wf_activePathWalk_absent:
  "c \<notin> ident ` set ns \<Longrightarrow> 1 < k \<Longrightarrow> activePathWalk k (Some c) nodeId ns \<noteq> None"
proof -
  assume a: "c \<notin> ident ` set ns" "1 < k"
  then obtain k' where k: "k = Suc (Suc k')" by (cases k; cases "k - 1") auto
  from a(1) have "find (\<lambda>n. ident n = c) (rev ns) = None" by (auto simp: find_None_iff)
  then show ?thesis unfolding k by auto
qed

lemma wf_activePathWalk_node:
  assumes wf: "parentsFirst ns"
  shows "ns = pre @ n # post \<Longrightarrow> length pre + 2 < k \<Longrightarrow>
         activePathWalk k (Some (ident n)) nodeId ns \<noteq> None"
proof (induction k arbitrary: pre n post)
  case 0
  then show ?case by simp
next
  case (Suc k)
  have dist: "distinct (map ident ns)" using wf by (rule parentsFirst_distinct)
  have "n \<in> set ns" using Suc.prems(1) by simp
  from find_unique [OF dist this] have f: "find (\<lambda>m. ident m = ident n) (rev ns) = Some n"
    by (simp add: find_rev_distinct [OF dist])
  have next_ok: "activePathWalk k (parentId n) nodeId ns \<noteq> None"
  proof (cases "parentId n")
    case None
    then show ?thesis using Suc.prems(2) by (intro wf_activePathWalk_end) auto
  next
    case (Some p)
    show ?thesis
    proof (cases "p \<in> ident ` set ns")
      case False
      then show ?thesis unfolding Some using Suc.prems(2) by (intro wf_activePathWalk_absent) auto
    next
      case True
      then obtain a where a: "a \<in> set ns" "ident a = p" by auto
      from parentsFirst_split [of pre n post] wf Suc.prems(1) Some a(2)
      have "a \<notin> set (n # post)" by auto
      with a(1) Suc.prems(1) have "a \<in> set pre" by auto
      then obtain pre1 post1 where pre: "pre = pre1 @ a # post1" by (auto dest: split_list)
      then have ns: "ns = pre1 @ a # (post1 @ n # post)" using Suc.prems(1) by simp
      have "length pre1 + 2 < k" using pre Suc.prems(2) by simp
      from Suc.IH [OF ns this] show ?thesis unfolding Some a(2) .
    qed
  qed
  then show ?case by (auto simp: f)
qed

lemma wf_isNodeInActivePath:
  assumes wf: "parentsFirst (nodes td)"
  shows "\<exists>b. isNodeInActivePath nodeId td = Some b"
proof -
  let ?k = "length (nodes td) + 2"
  have "activePathWalk ?k (activeNodeId td) nodeId (nodes td) \<noteq> None"
  proof (cases "activeNodeId td")
    case None
    then show ?thesis by (intro wf_activePathWalk_end) auto
  next
    case (Some c)
    show ?thesis
    proof (cases "c \<in> ident ` set (nodes td)")
      case False
      then show ?thesis unfolding Some by (intro wf_activePathWalk_absent) auto
    next
      case True
      then obtain n where "n \<in> set (nodes td)" "ident n = c" by auto
      then obtain pre post where ns: "nodes td = pre @ n # post" "ident n = c"
        by (auto dest: split_list)
      then have "length pre + 2 < ?k" by simp
      from wf_activePathWalk_node [OF wf ns(1) this] show ?thesis unfolding Some ns(2) .
    qed
  qed
  then show ?thesis by (auto simp: isNodeInActivePath_def)
qed

lemma wf_emitNode:
  assumes wf: "parentsFirst (nodes td)"
  shows "\<exists>fn. emitNode td s n = Some fn \<and> nodeKey fn = ident n \<and>
           posX fn = fst (case map_of s (ident n) of None \<Rightarrow> (0, 0) | Some pos \<Rightarrow> pos) - nodeWidth div 2 \<and>
           posY fn = snd (case map_of s (ident n) of None \<Rightarrow> (0, 0) | Some pos \<Rightarrow> pos)"
  using wf_isNodeInActivePath [OF wf, of "ident n"]
  by (auto simp: emitNode_def Let_def)

lemma wf_emitAll:
  assumes wf: "parentsFirst (nodes td)"
  shows "those (map (emitNode td s) ns) = Some (map (\<lambda>n. the (emitNode td s n)) ns)"
proof -
  have "emitNode td s n = Some (the (emitNode td s n))" for n
    using wf_emitNode [OF wf, of s n] by (cases "emitNode td s n") auto
  then have "map (emitNode td s) ns = map (\<lambda>n. Some (the (emitNode td s n))) ns"
    by (intro map_cong) (rule refl)
  then show ?thesis by (simp only: those_map_Some)
qed

lemma placed_snoc: "placed (s @ [(a, c)]) k \<longleftrightarrow> placed s k \<or> k = a"
  unfolding placed_def by (cases "map_of s k") (auto simp: map_add_def)

lemma placed_Some: "map_of s k = Some v \<Longrightarrow> placed s k"
  by (simp add: placed_def)

lemma placed_None: "map_of s k = None \<Longrightarrow> \<not> placed s k"
  by (simp add: placed_def)

lemma placed_shiftedRight: "shiftedRight s s0 \<Longrightarrow> placed s0 k \<longleftrightarrow> placed s k"
  unfolding placed_def using shiftedRight_None [of s s0 k] by simp

lemma wf_placeNode_entries:
  assumes wf: "parentsFirst ns"
  shows "\<exists>s'. placeNode ns n s = Some s' \<and>
           (\<forall>k. placed s' k \<longleftrightarrow>
                  placed s k \<or>
                  (k = ident n \<and> (falsy (parentId n) \<or> (\<exists>p. parentId n = Some p \<and> placed s p))))"
proof -
  from wf_placeNode [OF wf, of n s] obtain s' where plc: "placeNode ns n s = Some s' \<and>
     ((map_of s (ident n) \<noteq> None \<and> s' = s) \<or>
      (map_of s (ident n) = None \<and> falsy (parentId n) \<and> s' = s @ [(ident n, (0, 0))]) \<or>
      (map_of s (ident n) = None \<and> (\<exists>p. parentId n = Some p \<and> p \<noteq> [] \<and> map_of s p = None) \<and> s' = s) \<or>
      (map_of s (ident n) = None \<and>
       (\<exists>p pp s0 x. parentId n = Some p \<and> p \<noteq> [] \<and> map_of s p = Some pp \<and> shiftedRight s s0 \<and>
          s' = s0 @ [(ident n, (x, snd pp + verticalSpacing))])))" ..
  note pl = plc [THEN conjunct1] and c = plc [THEN conjunct2]
  from c consider (kept) "map_of s (ident n) \<noteq> None" "s' = s"
    | (root) "falsy (parentId n)" "s' = s @ [(ident n, (0, 0))]"
    | (skipped) p where "map_of s (ident n) = None" "parentId n = Some p" "p \<noteq> []" "map_of s p = None" "s' = s"
    | (child) p pp s0 x where "parentId n = Some p" "map_of s p = Some pp" "shiftedRight s s0"
        "s' = s0 @ [(ident n, (x, snd pp + verticalSpacing))]"
    by (elim disjE conjE exE) (blast+)
  then have "\<forall>k. placed s' k \<longleftrightarrow>
                  placed s k \<or>
                  (k = ident n \<and> (falsy (parentId n) \<or> (\<exists>p. parentId n = Some p \<and> placed s p)))"
  proof cases
    case kept
    from kept(1) have "placed s (ident n)" by (simp add: placed_def)
    then show ?thesis unfolding kept(2) by blast
  next
    case root
    have "placed s' k \<longleftrightarrow> placed s k \<or> k = ident n" for k
      unfolding root(2) by (rule placed_snoc)
    with root(1) show ?thesis by blast
  next
    case skipped
    have nf: "\<not> falsy (parentId n)" using skipped(2,3) by (simp add: falsy_def)
    have np: "\<not> (\<exists>q. parentId n = Some q \<and> placed s q)"
      using skipped(2) placed_None [OF skipped(4)] by simp
    show ?thesis unfolding skipped(5) using nf np by blast
  next
    case child
    from child(3) have "placed s0 k \<longleftrightarrow> placed s k" for k by (rule placed_shiftedRight)
    moreover have "placed s' k \<longleftrightarrow> placed s0 k \<or> k = ident n" for k
      unfolding child(4) by (rule placed_snoc)
    moreover have "placed s p" using child(2) by (rule placed_Some)
    ultimately show ?thesis using child(1) by blast
  qed
  with pl show ?thesis by blast
qed

lemma wf_placeAll_entries:
  assumes wf: "parentsFirst ns"
  shows "ns = pre @ rest \<Longrightarrow>
         \<exists>s'. placeAll ns rest s = Some s' \<and>
           (\<forall>k. placed s' k \<longleftrightarrow>
                  placed s k \<or>
                  (\<exists>n \<in> set rest. ident n = k \<and>
                     (falsy (parentId n) \<or> (\<exists>p. parentId n = Some p \<and> placed s' p))))"
proof (induction rest arbitrary: pre s)
  case Nil
  then show ?case by simp
next
  case (Cons n rest)
  from wf_placeNode_entries [OF wf, of n s] obtain s1 where x1: "placeNode ns n s = Some s1 \<and>
           (\<forall>k. placed s1 k \<longleftrightarrow>
                  placed s k \<or>
                  (k = ident n \<and> (falsy (parentId n) \<or> (\<exists>p. parentId n = Some p \<and> placed s p))))" ..
  note s1 = x1 [THEN conjunct1] and e1 = x1 [THEN conjunct2, rule_format]
  from Cons.prems have ns: "ns = (pre @ [n]) @ rest" by simp
  from Cons.IH [OF ns, of s1] obtain s' where x2: "placeAll ns rest s1 = Some s' \<and>
           (\<forall>k. placed s' k \<longleftrightarrow>
                  placed s1 k \<or>
                  (\<exists>m \<in> set rest. ident m = k \<and>
                     (falsy (parentId m) \<or> (\<exists>p. parentId m = Some p \<and> placed s' p))))" ..
  note s' = x2 [THEN conjunct1] and e2 = x2 [THEN conjunct2, rule_format]
  have later: "parentId n \<noteq> Some (ident m)" if "m \<in> set (n # rest)" for m
    using parentsFirst_split [of pre n rest m] wf Cons.prems that by simp
  have par: "placed s' p \<longleftrightarrow> placed s p" if p: "parentId n = Some p" for p
  proof
    assume "placed s p"
    with e1 [of p] e2 [of p] show "placed s' p" by blast
  next
    assume a: "placed s' p"
    have "\<not> (\<exists>m \<in> set rest. ident m = p)" using later p by auto
    with a e2 [of p] have "placed s1 p" by blast
    moreover have "p \<noteq> ident n" using later [of n] p by auto
    ultimately show "placed s p" using e1 [of p] by blast
  qed
  define R where "R = (\<lambda>st (m :: ConversationNode). falsy (parentId m) \<or> (\<exists>p. parentId m = Some p \<and> placed st p))"
  have Rn: "R s n \<longleftrightarrow> R s' n" unfolding R_def using par by blast
  have f1: "placed s1 k \<longleftrightarrow> placed s k \<or> (k = ident n \<and> R s n)" for k
    unfolding R_def by (rule e1)
  have f2: "placed s' k \<longleftrightarrow> placed s1 k \<or> (\<exists>m \<in> set rest. ident m = k \<and> R s' m)" for k
    unfolding R_def by (rule e2)
  have "placed s' k \<longleftrightarrow> placed s k \<or> (\<exists>m \<in> set (n # rest). ident m = k \<and> R s' m)" for k
    using f1 [of k] f2 [of k] Rn by (simp only: list.set bex_simps) blast
  then have "\<forall>k. placed s' k \<longleftrightarrow>
          placed s k \<or>
          (\<exists>m \<in> set (n # rest). ident m = k \<and>
             (falsy (parentId m) \<or> (\<exists>p. parentId m = Some p \<and> placed s' p)))"
    unfolding R_def by blast
  moreover have "placeAll ns (n # rest) s = Some s'" using s1 s' by simp
  ultimately show ?case by (intro exI [of _ s'] conjI)
qed

text \<open>
  C9, as the code has it: a snapshot that is well-formed otherwise and in creation order
  is never rejected, whatever parent ids dangle.  \<open>layoutNodes\<close> returns a graph that
  emits every node of the snapshot, at its entry moved left by half the node width, or at
  the default \<open>x = 0 - nodeWidth div 2\<close>, \<open>y = 0\<close> when it has no entry.  After the pass a
  key has an entry exactly if it had one before, or it is the id of a node that is
  parentless or whose parent id has an entry after the pass.  So a node without entry
  whose parent id is non-empty, matches no node and has no entry is skipped (as is every
  node below it that had no entry), and every other node is placed.
\<close>

theorem layoutNodes_skips_dangling_parent:
  assumes wf: "parentsFirst (nodes td)" and chrono: "sorted (map timestamp (nodes td))"
  shows "\<exists>flowNodes s'.
           layoutNodes td s = Some ((flowNodes, edgesOf td), s') \<and>
           map nodeKey flowNodes = map ident (nodes td) \<and>
           (\<forall>fn \<in> set flowNodes.
              (posX fn, posY fn) = (case map_of s' (nodeKey fn) of
                                      None \<Rightarrow> (- (nodeWidth div 2), 0)
                                    | Some pos \<Rightarrow> (fst pos - nodeWidth div 2, snd pos))) \<and>
           (\<forall>k. map_of s' k \<noteq> None \<longleftrightarrow>
                  map_of s k \<noteq> None \<or>
                  (\<exists>n \<in> set (nodes td). ident n = k \<and>
                     (falsy (parentId n) \<or> (\<exists>p. parentId n = Some p \<and> map_of s' p \<noteq> None)))) \<and>
           (\<forall>d \<in> set (nodes td). \<forall>p.
              parentId d = Some p \<and> p \<noteq> [] \<and> p \<notin> ident ` set (nodes td) \<and>
              map_of s p = None \<and> map_of s (ident d) = None \<longrightarrow>
              map_of s' (ident d) = None)"
proof -
  let ?ns = "nodes td"
  have srt: "sortedNodesOf td = ?ns" using chrono by (simp add: sortedNodesOf_def sort_key_id_if_sorted)
  from wf_placeAll_entries [OF wf, of "[]" ?ns s] obtain s' where
    s': "placeAll ?ns ?ns s = Some s'"
    and e: "\<And>k. map_of s' k \<noteq> None \<longleftrightarrow>
                  map_of s k \<noteq> None \<or>
                  (\<exists>n \<in> set ?ns. ident n = k \<and>
                     (falsy (parentId n) \<or> (\<exists>p. parentId n = Some p \<and> map_of s' p \<noteq> None)))"
    unfolding placed_def by auto
  have lp: "layoutPass td s = Some s'" using s' by (simp add: layoutPass_def srt)
  let ?fl = "map (\<lambda>n. the (emitNode td s' n)) ?ns"
  have ln: "layoutNodes td s = Some ((?fl, edgesOf td), s')"
    by (simp add: layoutNodes_def lp srt wf_emitAll [OF wf])
  have em: "nodeKey (the (emitNode td s' n)) = ident n \<and>
        posX (the (emitNode td s' n)) = fst (case map_of s' (ident n) of None \<Rightarrow> (0, 0) | Some pos \<Rightarrow> pos) - nodeWidth div 2 \<and>
        posY (the (emitNode td s' n)) = snd (case map_of s' (ident n) of None \<Rightarrow> (0, 0) | Some pos \<Rightarrow> pos)" for n
    using wf_emitNode [OF wf, of s' n] by auto
  have keys: "map nodeKey ?fl = map ident ?ns" by (simp add: em)
  have pos: "\<forall>fn \<in> set ?fl.
              (posX fn, posY fn) = (case map_of s' (nodeKey fn) of
                                      None \<Rightarrow> (- (nodeWidth div 2), 0)
                                    | Some pos \<Rightarrow> (fst pos - nodeWidth div 2, snd pos))"
    using em by (auto split: option.splits)
  have dang: "map_of s' (ident d) = None"
    if d: "d \<in> set ?ns" "parentId d = Some p" "p \<noteq> []" "p \<notin> ident ` set ?ns"
      "map_of s p = None" "map_of s (ident d) = None" for d p
  proof (rule ccontr)
    assume "map_of s' (ident d) \<noteq> None"
    with e [of "ident d"] d(6) obtain n where n: "n \<in> set ?ns" "ident n = ident d"
      "falsy (parentId n) \<or> (\<exists>q. parentId n = Some q \<and> map_of s' q \<noteq> None)" by blast
    from wf_inj_ident [OF wf n(1) d(1) n(2)] have "n = d" .
    with n(3) d(2,3) have "map_of s' p \<noteq> None" by (auto simp: falsy_def)
    with e [of p] d(4,5) show False by blast
  qed
  show ?thesis
  proof (intro exI conjI)
    show "layoutNodes td s = Some ((?fl, edgesOf td), s')" by (rule ln)
  next
    show "map nodeKey ?fl = map ident (nodes td)" by (rule keys)
  next
    show "\<forall>fn \<in> set ?fl.
              (posX fn, posY fn) = (case map_of s' (nodeKey fn) of
                                      None \<Rightarrow> (- (nodeWidth div 2), 0)
                                    | Some pos \<Rightarrow> (fst pos - nodeWidth div 2, snd pos))" by (rule pos)
  next
    show "\<forall>k. map_of s' k \<noteq> None \<longleftrightarrow>
                  map_of s k \<noteq> None \<or>
                  (\<exists>n \<in> set (nodes td). ident n = k \<and>
                     (falsy (parentId n) \<or> (\<exists>p. parentId n = Some p \<and> map_of s' p \<noteq> None)))"
      by (intro allI) (rule e)
  next
    show "\<forall>d \<in> set (nodes td). \<forall>p.
              parentId d = Some p \<and> p \<noteq> [] \<and> p \<notin> ident ` set (nodes td) \<and>
              map_of s p = None \<and> map_of s (ident d) = None \<longrightarrow>
              map_of s' (ident d) = None"
      by (intro ballI allI impI) (elim conjE, rule dang)
  qed
qed

text \<open>
  C9 as stated fails: the snapshot with the dangling parent \<open>ghost\<close> is laid out; the root
  is placed and both nodes are emitted.
\<close>

theorem layoutNodes_lays_out_dangling_snapshot:
  "layoutNodes danglingTree []
   = Some (([\<lparr>nodeKey = ''R'', posX = - 190, posY = 0, isActive = False, isInActivePath = False\<rparr>,
             \<lparr>nodeKey = ''D'', posX = - 190, posY = 0, isActive = True, isInActivePath = True\<rparr>],
            [\<lparr>source = ''ghost'', target = ''D'', animated = True\<rparr>]),
           [(''R'', (0, 0))])"
  by code_simp

theorem layoutNodes_skips_dangling_parent_witness:
  "parentsFirst (nodes danglingTree) \<and> sorted (map timestamp (nodes danglingTree)) \<and>
   \<lparr>ident = ''D'', parentId = Some ''ghost'', timestamp = 1\<rparr> \<in> set (nodes danglingTree) \<and>
   ''ghost'' \<noteq> [] \<and> ''ghost'' \<notin> ident ` set (nodes danglingTree) \<and>
   (\<exists>flowNodes s'. layoutNodes danglingTree [] = Some ((flowNodes, edgesOf danglingTree), s') \<and>
        map nodeKey flowNodes = [''R'', ''D''] \<and> map_of s' ''R'' \<noteq> None \<and> map_of s' ''D'' = None \<and>
        map (\<lambda>fn. (posX fn, posY fn)) flowNodes
          = [(fst (the (map_of s' ''R'')) - 190, snd (the (map_of s' ''R''))), (- 190, 0)])"
proof -
  let ?d = "\<lparr>ident = ''D'', parentId = Some ''ghost'', timestamp = 1\<rparr>"
  let ?r = "\<lparr>ident = ''R'', parentId = None, timestamp = 0\<rparr>"
  have h1: "parentsFirst (nodes danglingTree)" by (simp add: danglingTree_def)
  have h2: "sorted (map timestamp (nodes danglingTree))" by (simp add: danglingTree_def)
  have h3: "?d \<in> set (nodes danglingTree)" "''ghost'' \<noteq> []" "''ghost'' \<notin> ident ` set (nodes danglingTree)"
    and r: "?r \<in> set (nodes danglingTree)"
    by (simp_all add: danglingTree_def)
  from layoutNodes_skips_dangling_parent [OF h1 h2, of "[]"] obtain flowNodes s' where
    ln: "layoutNodes danglingTree [] = Some ((flowNodes, edgesOf danglingTree), s')"
    and keys: "map nodeKey flowNodes = map ident (nodes danglingTree)"
    and pos: "\<forall>fn \<in> set flowNodes.
              (posX fn, posY fn) = (case map_of s' (nodeKey fn) of
                                      None \<Rightarrow> (- (nodeWidth div 2), 0)
                                    | Some pos \<Rightarrow> (fst pos - nodeWidth div 2, snd pos))"
    and e: "\<forall>k. map_of s' k \<noteq> None \<longleftrightarrow>
                  map_of ([] :: store) k \<noteq> None \<or>
                  (\<exists>n \<in> set (nodes danglingTree). ident n = k \<and>
                     (falsy (parentId n) \<or> (\<exists>p. parentId n = Some p \<and> map_of s' p \<noteq> None)))"
    and dang: "\<forall>d \<in> set (nodes danglingTree). \<forall>p.
              parentId d = Some p \<and> p \<noteq> [] \<and> p \<notin> ident ` set (nodes danglingTree) \<and>
              map_of ([] :: store) p = None \<and> map_of ([] :: store) (ident d) = None \<longrightarrow>
              map_of s' (ident d) = None"
    by (elim exE conjE) blast
  have "parentId ?d = Some ''ghost''" "map_of ([] :: store) ''ghost'' = None"
    "map_of ([] :: store) (ident ?d) = None" "ident ?d = ''D''" by simp_all
  with dang h3 have D: "map_of s' ''D'' = None" by metis
  have "falsy (parentId ?r)" "ident ?r = ''R''" by (simp_all add: falsy_def)
  with e r have R: "map_of s' ''R'' \<noteq> None" by blast
  from keys have k: "map nodeKey flowNodes = [''R'', ''D'']" by (simp add: danglingTree_def)
  then obtain a b where fl: "flowNodes = [a, b]" "nodeKey a = ''R''" "nodeKey b = ''D''" by auto
  with pos D R have "map (\<lambda>fn. (posX fn, posY fn)) flowNodes
          = [(fst (the (map_of s' ''R'')) - 190, snd (the (map_of s' ''R''))), (- 190, 0)]"
    by (auto simp: nodeWidth_def)
  with ln k R D have "\<exists>flowNodes s'. layoutNodes danglingTree [] = Some ((flowNodes, edgesOf danglingTree), s') \<and>
        map nodeKey flowNodes = [''R'', ''D''] \<and> map_of s' ''R'' \<noteq> None \<and> map_of s' ''D'' = None \<and>
        map (\<lambda>fn. (posX fn, posY fn)) flowNodes
          = [(fst (the (map_of s' ''R'')) - 190, snd (the (map_of s' ''R''))), (- 190, 0)]"
    by (intro exI conjI)
  with h1 h2 h3 show ?thesis by (intro conjI)
qed

section \<open>Ancestor-sibling displacement on trees\<close>

lemma wf_descs_linear:
  "parentsFirst ns \<Longrightarrow> k \<in> set (descs ns a) \<Longrightarrow> k \<in> set (descs ns b) \<Longrightarrow>
   a = b \<or> a \<in> set (descs ns b) \<or> b \<in> set (descs ns a)"
proof (induction ns arbitrary: k rule: rev_induct)
  case Nil
  then show ?case by (simp add: wf_descs_leaf)
next
  case (snoc l ns)
  from snoc.prems(1) have pf: "parentsFirst ns" and fr: "ident l \<notin> ident ` set ns"
    by (simp_all add: parentsFirst_snoc)
  note sn = wf_descs_snoc [OF snoc.prems(1)]
  have mono: "set (descs ns i) \<subseteq> set (descs (ns @ [l]) i)" for i unfolding sn by auto
  have fresh: "ident l \<notin> set (descs ns i)" for i using wf_descs_subset [OF pf, of i] fr by auto
  show ?case
  proof (cases "k \<in> set (descs ns a) \<and> k \<in> set (descs ns b)")
    case True
    with snoc.IH [OF pf, of k] mono show ?thesis by blast
  next
    case False
    with snoc.prems(2,3) have "k = ident l" unfolding sn by (auto split: if_splits)
    with snoc.prems(2,3) fresh have pa: "parentId l \<in> Some ` insert a (set (descs ns a))"
      and pb: "parentId l \<in> Some ` insert b (set (descs ns b))"
      unfolding sn by (auto split: if_splits)
    then obtain q where q: "parentId l = Some q" "q = a \<or> q \<in> set (descs ns a)"
      "q = b \<or> q \<in> set (descs ns b)" by auto
    show ?thesis
    proof (cases "q = a \<or> q = b")
      case True
      with q mono show ?thesis by blast
    next
      case False
      with q have "q \<in> set (descs ns a)" "q \<in> set (descs ns b)" by auto
      from snoc.IH [OF pf this] mono show ?thesis by blast
    qed
  qed
qed

lemma wf_sibling_not_desc:
  assumes wf: "parentsFirst ns" and S: "S \<in> set ns" and T: "T \<in> set ns"
    and sib: "parentId T = parentId S"
  shows "ident T \<notin> set (descs ns (ident S))"
proof
  assume d: "ident T \<in> set (descs ns (ident S))"
  from wf_descs_node [OF wf T d] obtain q where q: "parentId T = Some q"
    "q = ident S \<or> q \<in> set (descs ns (ident S))" by blast
  from q(1) sib have pS: "parentId S = Some q" by simp
  from q(2) show False
  proof
    assume "q = ident S"
    with pS wf_not_own_parent [OF wf S] show False by simp
  next
    assume qd: "q \<in> set (descs ns (ident S))"
    from wf_descs_child [OF wf S pS] wf_descs_trans [OF wf qd]
    have "ident S \<in> set (descs ns (ident S))" by auto
    with wf_descs_irrefl [OF wf] show False by blast
  qed
qed

lemma ancestorsUp_Cons:
  "A \<in> set (ancestorsUp (Suc k) ns cur) \<Longrightarrow>
   \<exists>q A0. parentId cur = Some q \<and> q \<noteq> [] \<and> find (\<lambda>n. ident n = q) ns = Some A0 \<and>
          ancestorsUp (Suc k) ns cur = A0 # ancestorsUp k ns A0"
  by (cases "parentId cur"; cases "the (parentId cur) = []";
      cases "find (\<lambda>n. ident n = the (parentId cur)) ns") auto

lemma ancestorsUp_facts:
  assumes wf: "parentsFirst ns"
  shows "cur \<in> set ns \<Longrightarrow> A \<in> set (ancestorsUp k ns cur) \<Longrightarrow>
         A \<in> set ns \<and> ident cur \<in> set (descs ns (ident A))"
proof (induction k arbitrary: cur)
  case 0
  then show ?case by simp
next
  case (Suc k)
  from ancestorsUp_Cons [OF Suc.prems(2)] obtain q A0 where q: "parentId cur = Some q" "q \<noteq> []"
    "find (\<lambda>n. ident n = q) ns = Some A0" and u: "ancestorsUp (Suc k) ns cur = A0 # ancestorsUp k ns A0"
    by blast
  from Suc.prems(2) have "A \<in> set (A0 # ancestorsUp k ns A0)" unfolding u .
  then have A: "A = A0 \<or> A \<in> set (ancestorsUp k ns A0)" by simp
  from find_SomeD [OF q(3)] have A0: "A0 \<in> set ns" "ident A0 = q" by auto
  have c: "ident cur \<in> set (descs ns (ident A0))"
    using wf_descs_child [OF wf Suc.prems(1) q(1)] A0(2) by simp
  from A show ?case
  proof
    assume "A = A0"
    with A0 c show ?thesis by simp
  next
    assume "A \<in> set (ancestorsUp k ns A0)"
    from Suc.IH [OF A0(1) this] have a: "A \<in> set ns" "ident A0 \<in> set (descs ns (ident A))" by auto
    from wf_descs_trans [OF wf a(2)] c a(1) show ?thesis by auto
  qed
qed

lemma ancestorsUp_distinct:
  assumes wf: "parentsFirst ns"
  shows "cur \<in> set ns \<Longrightarrow> distinct (map ident (ancestorsUp k ns cur))"
proof (induction k arbitrary: cur)
  case 0
  then show ?case by simp
next
  case (Suc k)
  show ?case
  proof (cases "parentId cur")
    case None
    then show ?thesis by simp
  next
    case (Some q)
    show ?thesis
    proof (cases "q = [] \<or> find (\<lambda>n. ident n = q) ns = None")
      case True
      then show ?thesis using Some by auto
    next
      case False
      then obtain A0 where f: "find (\<lambda>n. ident n = q) ns = Some A0" and q: "q \<noteq> []" by auto
      from find_SomeD [OF f] have A0: "A0 \<in> set ns" by simp
      have "ident A0 \<notin> ident ` set (ancestorsUp k ns A0)"
      proof
        assume "ident A0 \<in> ident ` set (ancestorsUp k ns A0)"
        then obtain A where A: "A \<in> set (ancestorsUp k ns A0)" "ident A = ident A0" by auto
        from ancestorsUp_facts [OF wf A0 A(1)] A(2) wf_descs_irrefl [OF wf, of "ident A0"]
        show False by simp
      qed
      with Suc.IH [OF A0] Some q f show ?thesis by simp
    qed
  qed
qed

text \<open>Branches hanging off a chain of ancestors are pairwise apart.\<close>

lemma chain_siblings_apart:
  assumes wf: "parentsFirst ns" and cur: "cur \<in> set ns"
    and A: "A \<in> set (ancestorsUp k ns cur)" and A': "A' \<in> set (ancestorsUp k ns cur)"
    and S: "S \<in> set (siblingsOf ns A)" and T: "T \<in> set (siblingsOf ns A')"
    and mem: "ident T \<in> set (branchIds ns S)"
  shows "T = S \<and> A = A'"
proof -
  from ancestorsUp_facts [OF wf cur A] have a: "A \<in> set ns" "ident cur \<in> set (descs ns (ident A))" by auto
  from ancestorsUp_facts [OF wf cur A'] have a': "A' \<in> set ns" "ident cur \<in> set (descs ns (ident A'))" by auto
  from S have s: "S \<in> set ns" "parentId S = parentId A" "ident S \<noteq> ident A" by (auto simp: siblingsOf_def)
  from T have t: "T \<in> set ns" "parentId T = parentId A'" "ident T \<noteq> ident A'" by (auto simp: siblingsOf_def)
  note nd = wf_sibling_not_desc [OF wf]
  from wf_descs_linear [OF wf a(2) a'(2)]
  consider (same) "ident A = ident A'" | (below) "ident A \<in> set (descs ns (ident A'))"
    | (above) "ident A' \<in> set (descs ns (ident A))" by blast
  then show ?thesis
  proof cases
    case same
    with wf_inj_ident [OF wf a(1) a'(1)] have AA: "A = A'" by simp
    with s t have sib: "parentId T = parentId S" by simp
    from mem nd [OF s(1) t(1) sib] have "ident T = ident S" by (simp add: branchIds_def)
    from wf_inj_ident [OF wf t(1) s(1) this] AA show ?thesis by simp
  next
    case below
    show ?thesis
    proof (cases "ident T = ident S")
      case True
      from wf_inj_ident [OF wf t(1) s(1) True] s t have "parentId A = parentId A'" by simp
      from nd [OF a'(1) a(1) this] below show ?thesis by simp
    next
      case False
      with mem have d: "ident T \<in> set (descs ns (ident S))" by (simp add: branchIds_def)
      from wf_descs_node [OF wf t(1) d] obtain q where q: "parentId T = Some q"
        "q = ident S \<or> q \<in> set (descs ns (ident S))" by blast
      from q(1) t(2) have "parentId A' = Some q" by simp
      from wf_descs_child [OF wf a'(1) this] have "ident A' \<in> set (descs ns q)" .
      from wf_descs_trans [OF wf this] below have Aq: "ident A \<in> set (descs ns q)" by blast
      from q(2) have "ident A \<in> set (descs ns (ident S))"
      proof
        assume "q = ident S" with Aq show ?thesis by simp
      next
        assume "q \<in> set (descs ns (ident S))"
        from wf_descs_trans [OF wf this] Aq show ?thesis by blast
      qed
      with nd [OF s(1) a(1)] s(2) show ?thesis by simp
    qed
  next
    case above
    from wf_descs_node [OF wf a'(1) above] obtain q where q: "parentId A' = Some q"
      "q = ident A \<or> q \<in> set (descs ns (ident A))" by blast
    have qT: "parentId T = Some q" using q(1) t(2) by simp
    show ?thesis
    proof (cases "ident T = ident S")
      case True
      from wf_inj_ident [OF wf t(1) s(1) True] qT s(2) have pA: "parentId A = Some q" by simp
      from q(2) show ?thesis
      proof
        assume "q = ident A" with pA wf_not_own_parent [OF wf a(1)] show ?thesis by simp
      next
        assume "q \<in> set (descs ns (ident A))"
        from wf_descs_trans [OF wf this] wf_descs_child [OF wf a(1) pA] wf_descs_irrefl [OF wf, of "ident A"]
        show ?thesis by blast
      qed
    next
      case False
      with mem have d: "ident T \<in> set (descs ns (ident S))" by (simp add: branchIds_def)
      from wf_descs_node [OF wf t(1) d] qT have qS: "q = ident S \<or> q \<in> set (descs ns (ident S))" by simp
      have False
      proof (cases "q = ident S")
        case True
        with q(2) s(3) have "ident S \<in> set (descs ns (ident A))" by auto
        with nd [OF a(1) s(1) s(2)] show False by simp
      next
        case qs: False
        with qS have qdS: "q \<in> set (descs ns (ident S))" by simp
        show False
        proof (cases "q = ident A")
          case True
          with qdS nd [OF s(1) a(1)] s(2) show False by simp
        next
          case False
          with q(2) have "q \<in> set (descs ns (ident A))" by simp
          from wf_descs_linear [OF wf this qdS] s(3) nd [OF s(1) a(1)] nd [OF a(1) s(1)] s(2)
          show False by auto
        qed
      qed
      then show ?thesis ..
    qed
  qed
qed

lemma chain_sibling_misses:
  assumes wf: "parentsFirst ns" and cur: "cur \<in> set ns"
    and A: "A \<in> set (ancestorsUp k ns cur)" and S: "S \<in> set (siblingsOf ns A)"
  shows "ident cur \<notin> set (branchIds ns S)"
proof
  assume mem: "ident cur \<in> set (branchIds ns S)"
  from ancestorsUp_facts [OF wf cur A] have a: "A \<in> set ns" "ident cur \<in> set (descs ns (ident A))" by auto
  from S have s: "S \<in> set ns" "parentId S = parentId A" "ident S \<noteq> ident A" by (auto simp: siblingsOf_def)
  note nd = wf_sibling_not_desc [OF wf]
  show False
  proof (cases "ident cur = ident S")
    case True
    with a(2) nd [OF a(1) s(1) s(2)] show False by simp
  next
    case False
    with mem have "ident cur \<in> set (descs ns (ident S))" by (simp add: branchIds_def)
    from wf_descs_linear [OF wf this a(2)] s(3) nd [OF s(1) a(1)] nd [OF a(1) s(1)] s(2)
    show False by auto
  qed
qed

lemma shiftIds_append: "shiftIds a (xs @ ys) s = shiftIds a ys (shiftIds a xs s)"
  by (simp add: shiftIds_def)

lemma shiftIds_map_of_notin: "k \<notin> set ids \<Longrightarrow> map_of (shiftIds a ids s) k = map_of s k"
  by (cases "map_of s k") (simp_all add: shiftIds_map_of)

lemma rightOf_shiftIds:
  "ident T \<notin> set ids \<Longrightarrow> p \<notin> set ids \<Longrightarrow> rightOf (shiftIds a ids s) p T = rightOf s p T"
  by (simp add: rightOf_def shiftIds_map_of_notin)

lemma shiftSiblings_step:
  assumes wf: "parentsFirst ns"
  shows "shiftSiblings p (S # rest) ns s =
           (if rightOf s p S
            then shiftSiblings p rest ns (shiftIds horizontalSpacing (branchIds ns S) s)
            else shiftSiblings p rest ns s)"
  by (auto simp: rightOf_def wf_shiftBranchRight [OF wf] branchIds_def split: option.splits)

lemma shiftSiblings_char:
  assumes wf: "parentsFirst ns"
  shows "distinct sibs \<Longrightarrow>
         (\<forall>S \<in> set sibs. \<forall>T \<in> set sibs. ident T \<in> set (branchIds ns S) \<longrightarrow> T = S) \<Longrightarrow>
         (\<forall>S \<in> set sibs. p \<notin> set (branchIds ns S)) \<Longrightarrow>
         shiftSiblings p sibs ns s
           = Some (shiftIds horizontalSpacing (concat (map (branchIds ns) (filter (rightOf s p) sibs))) s)"
proof (induction sibs arbitrary: s)
  case Nil
  then show ?case by (simp add: shiftIds_Nil)
next
  case (Cons S rest)
  have ih: "shiftSiblings p rest ns s'
           = Some (shiftIds horizontalSpacing (concat (map (branchIds ns) (filter (rightOf s' p) rest))) s')" for s'
    using Cons.prems by (intro Cons.IH) auto
  show ?case
  proof (cases "rightOf s p S")
    case False
    then show ?thesis by (simp add: shiftSiblings_step [OF wf] ih del: shiftSiblings.simps)
  next
    case True
    let ?s1 = "shiftIds horizontalSpacing (branchIds ns S) s"
    have "rightOf ?s1 p T = rightOf s p T" if "T \<in> set rest" for T
    proof -
      from that Cons.prems(1) have "T \<noteq> S" by auto
      with that Cons.prems(2) have "ident T \<notin> set (branchIds ns S)" by auto
      moreover from Cons.prems(3) have "p \<notin> set (branchIds ns S)" by simp
      ultimately show ?thesis by (rule rightOf_shiftIds)
    qed
    then have "filter (rightOf ?s1 p) rest = filter (rightOf s p) rest"
      by (intro filter_cong) auto
    with True show ?thesis
      by (simp add: shiftSiblings_step [OF wf] ih shiftIds_append del: shiftSiblings.simps)
  qed
qed

lemma ancestorWalk_walkList:
  "ancestorWalk k cur p ns s \<noteq> None \<Longrightarrow>
   ancestorWalk k cur p ns s = walkList p ns (ancestorsUp k ns cur) s"
proof (induction k arbitrary: cur s)
  case 0
  then show ?case by simp
next
  case (Suc k)
  then show ?case
    by (auto simp: siblingsOf_def split: option.splits if_splits)
qed

lemma walkList_char:
  assumes wf: "parentsFirst ns" and sub: "set chain \<subseteq> set ns"
    and dist: "distinct chain"
    and apart: "\<forall>A \<in> set chain. \<forall>A' \<in> set chain. \<forall>S \<in> set (siblingsOf ns A). \<forall>T \<in> set (siblingsOf ns A').
                  ident T \<in> set (branchIds ns S) \<longrightarrow> T = S \<and> A = A'"
    and pmiss: "\<forall>A \<in> set chain. \<forall>S \<in> set (siblingsOf ns A). p \<notin> set (branchIds ns S)"
  shows "chain = pre @ As \<Longrightarrow>
         walkList p ns As
           (shiftIds horizontalSpacing
              (concat (map (branchIds ns) (concat (map (\<lambda>A. filter (rightOf s0 p) (siblingsOf ns A)) pre)))) s0)
         = Some (shiftIds horizontalSpacing
              (concat (map (branchIds ns) (concat (map (\<lambda>A. filter (rightOf s0 p) (siblingsOf ns A)) (pre @ As))))) s0)"
proof (induction As arbitrary: pre)
  case Nil
  then show ?case by simp
next
  case (Cons A As)
  let ?mv = "\<lambda>Bs. concat (map (branchIds ns) (concat (map (\<lambda>A. filter (rightOf s0 p) (siblingsOf ns A)) Bs)))"
  let ?cur = "shiftIds horizontalSpacing (?mv pre) s0"
  have A: "A \<in> set chain" "A \<notin> set pre" using Cons.prems dist by auto
  have dsib: "distinct (siblingsOf ns A)"
    using parentsFirst_distinct [OF wf] by (simp add: siblingsOf_def distinct_map)
  have within: "\<forall>S \<in> set (siblingsOf ns A). \<forall>T \<in> set (siblingsOf ns A). ident T \<in> set (branchIds ns S) \<longrightarrow> T = S"
    using apart A(1) by blast
  have pm: "\<forall>S \<in> set (siblingsOf ns A). p \<notin> set (branchIds ns S)" using pmiss A(1) by blast
  have step: "shiftSiblings p (siblingsOf ns A) ns ?cur
        = Some (shiftIds horizontalSpacing
                  (concat (map (branchIds ns) (filter (rightOf ?cur p) (siblingsOf ns A)))) ?cur)"
    using dsib within pm by (rule shiftSiblings_char [OF wf])
  have notin: "k \<notin> set (?mv pre)" if "k = ident T \<and> T \<in> set (siblingsOf ns A) \<or> k = p" for k T
  proof
    assume "k \<in> set (?mv pre)"
    then obtain A'' S where S: "A'' \<in> set pre" "S \<in> set (siblingsOf ns A'')" "k \<in> set (branchIds ns S)"
      by auto
    from S(1) Cons.prems have c: "A'' \<in> set chain" by simp
    from that show False
    proof
      assume "k = ident T \<and> T \<in> set (siblingsOf ns A)"
      with apart c A(1) S(2,3) have "A'' = A" by blast
      with S(1) A(2) show False by simp
    next
      assume "k = p"
      with pmiss c S(2,3) show False by blast
    qed
  qed
  have "rightOf ?cur p T = rightOf s0 p T" if "T \<in> set (siblingsOf ns A)" for T
    using notin [of "ident T" T] notin [of p T] that by (intro rightOf_shiftIds) auto
  then have "filter (rightOf ?cur p) (siblingsOf ns A) = filter (rightOf s0 p) (siblingsOf ns A)"
    by (intro filter_cong) auto
  with step have step': "shiftSiblings p (siblingsOf ns A) ns ?cur
        = Some (shiftIds horizontalSpacing (?mv (pre @ [A])) s0)"
    by (simp add: shiftIds_append)
  from Cons.IH [of "pre @ [A]"] Cons.prems
  have "walkList p ns As (shiftIds horizontalSpacing (?mv (pre @ [A])) s0)
        = Some (shiftIds horizontalSpacing (?mv (pre @ A # As)) s0)" by simp
  with step' show ?case by simp
qed

lemma branch_disjoint:
  assumes wf: "parentsFirst ns"
    and ST: "ident T \<notin> set (branchIds ns S)" and TS: "ident S \<notin> set (branchIds ns T)"
  shows "set (branchIds ns S) \<inter> set (branchIds ns T) = {}"
proof -
  have False if "k \<in> set (branchIds ns S)" "k \<in> set (branchIds ns T)" for k
  proof -
    from that ST TS have "k \<in> set (descs ns (ident S))" "k \<in> set (descs ns (ident T))"
      by (auto simp: branchIds_def)
    from wf_descs_linear [OF wf this] ST TS show False by (auto simp: branchIds_def)
  qed
  then show ?thesis by blast
qed

lemma branches_distinct:
  assumes wf: "parentsFirst ns"
  shows "distinct Ss \<Longrightarrow>
         (\<forall>S \<in> set Ss. \<forall>T \<in> set Ss. ident T \<in> set (branchIds ns S) \<longrightarrow> T = S) \<Longrightarrow>
         distinct (concat (map (branchIds ns) Ss))"
proof (induction Ss)
  case Nil
  then show ?case by simp
next
  case (Cons S Ss)
  have 1: "distinct (branchIds ns S)" using wf_descs_distinct [OF wf] by (simp add: branchIds_def)
  have 2: "distinct (concat (map (branchIds ns) Ss))" using Cons by auto
  have 3: "set (branchIds ns S) \<inter> set (branchIds ns T) = {}" if "T \<in> set Ss" for T
  proof -
    from that Cons.prems(1) have "T \<noteq> S" by auto
    with that Cons.prems(2) have "ident T \<notin> set (branchIds ns S)" "ident S \<notin> set (branchIds ns T)"
      by auto
    then show ?thesis by (rule branch_disjoint [OF wf])
  qed
  from 1 2 3 show ?case by auto
qed

lemma concat_filter_distinct:
  "distinct chain \<Longrightarrow> (\<forall>A \<in> set chain. distinct (f A)) \<Longrightarrow>
   (\<forall>A \<in> set chain. \<forall>A' \<in> set chain. \<forall>S. S \<in> set (f A) \<and> S \<in> set (f A') \<longrightarrow> A = A') \<Longrightarrow>
   distinct (concat (map f chain))"
proof (induction chain)
  case Nil
  then show ?case by simp
next
  case (Cons A chain)
  have "distinct (concat (map f chain))" using Cons by auto
  moreover have "set (f A) \<inter> set (concat (map f chain)) = {}"
  proof -
    have False if "S \<in> set (f A)" "A' \<in> set chain" "S \<in> set (f A')" for S A'
    proof -
      have "A \<in> set (A # chain)" "A' \<in> set (A # chain)" using that(2) by simp_all
      with Cons.prems(3) that(1,3) have "A = A'" by blast
      with that(2) Cons.prems(1) show False by simp
    qed
    then show ?thesis by auto
  qed
  ultimately show ?case using Cons.prems(2) by simp
qed

lemma wf_chain_props:
  assumes wf: "parentsFirst ns" and w: "w \<in> set ns" and par: "parentId w = Some p"
  defines "chain \<equiv> ancestorsUp (Suc (length ns)) ns w"
  shows "set chain \<subseteq> set ns" and "distinct chain"
    and "\<forall>A \<in> set chain. \<forall>A' \<in> set chain. \<forall>S \<in> set (siblingsOf ns A). \<forall>T \<in> set (siblingsOf ns A').
           ident T \<in> set (branchIds ns S) \<longrightarrow> T = S \<and> A = A'"
    and "\<forall>A \<in> set chain. \<forall>S \<in> set (siblingsOf ns A). p \<notin> set (branchIds ns S)"
proof -
  show "set chain \<subseteq> set ns" unfolding chain_def using ancestorsUp_facts [OF wf w] by blast
  show "distinct chain" unfolding chain_def
    using ancestorsUp_distinct [OF wf w, of "Suc (length ns)"] by (simp add: distinct_map)
  show "\<forall>A \<in> set chain. \<forall>A' \<in> set chain. \<forall>S \<in> set (siblingsOf ns A). \<forall>T \<in> set (siblingsOf ns A').
           ident T \<in> set (branchIds ns S) \<longrightarrow> T = S \<and> A = A'"
    unfolding chain_def using chain_siblings_apart [OF wf w] by blast
  show "\<forall>A \<in> set chain. \<forall>S \<in> set (siblingsOf ns A). p \<notin> set (branchIds ns S)"
  proof (intro ballI notI)
    fix A S assume A: "A \<in> set chain" and S: "S \<in> set (siblingsOf ns A)"
      and p: "p \<in> set (branchIds ns S)"
    from p have "p \<in> set (ident S # descs ns (ident S))" by (simp add: branchIds_def)
    from wf_descs_closed [OF wf w par this] have "ident w \<in> set (branchIds ns S)"
      by (simp add: branchIds_def)
    with chain_sibling_misses [OF wf w A [unfolded chain_def] S] show False by simp
  qed
qed

lemma displaced_distinct:
  assumes wf: "parentsFirst ns" and w: "w \<in> set ns" and par: "parentId w = Some p"
  shows "distinct (concat (map (branchIds ns) (displacedSiblings ns s p w)))"
proof -
  let ?chain = "ancestorsUp (Suc (length ns)) ns w"
  let ?f = "\<lambda>A. filter (rightOf s p) (siblingsOf ns A)"
  note cp = wf_chain_props [OF wf w par]
  have dsib: "distinct (siblingsOf ns A)" for A
    using parentsFirst_distinct [OF wf] by (simp add: siblingsOf_def distinct_map)
  have self: "ident S \<in> set (branchIds ns S)" for S by (simp add: branchIds_def)
  have d: "distinct (concat (map ?f ?chain))"
  proof (rule concat_filter_distinct [OF cp(2)])
    show "\<forall>A \<in> set ?chain. distinct (?f A)" using dsib by simp
    show "\<forall>A \<in> set ?chain. \<forall>A' \<in> set ?chain. \<forall>S. S \<in> set (?f A) \<and> S \<in> set (?f A') \<longrightarrow> A = A'"
    proof (intro ballI allI impI)
      fix A A' S assume A: "A \<in> set ?chain" "A' \<in> set ?chain" and S: "S \<in> set (?f A) \<and> S \<in> set (?f A')"
      then have "S \<in> set (siblingsOf ns A)" "S \<in> set (siblingsOf ns A')" by auto
      with cp(3) A self [of S] show "A = A'" by blast
    qed
  qed
  have a: "\<forall>S \<in> set (concat (map ?f ?chain)). \<forall>T \<in> set (concat (map ?f ?chain)).
             ident T \<in> set (branchIds ns S) \<longrightarrow> T = S"
  proof (intro ballI impI)
    fix S T assume S: "S \<in> set (concat (map ?f ?chain))" and T: "T \<in> set (concat (map ?f ?chain))"
      and m: "ident T \<in> set (branchIds ns S)"
    from S obtain A where A: "A \<in> set ?chain" "S \<in> set (siblingsOf ns A)" by auto
    from T obtain A' where A': "A' \<in> set ?chain" "T \<in> set (siblingsOf ns A')" by auto
    from cp(3) A A' m show "T = S" by blast
  qed
  from branches_distinct [OF wf d a] show ?thesis by (simp add: displacedSiblings_def)
qed

lemma shiftAllAncestorSiblings_char:
  assumes wf: "parentsFirst ns"
    and node: "find (\<lambda>n. ident n = nodeId) ns = Some w"
    and parent: "parentId w = Some p" "p \<noteq> []" "p \<in> ident ` set ns"
    and ppos: "map_of s p \<noteq> None"
  shows "shiftAllAncestorSiblings nodeId ns s
         = Some (shiftIds horizontalSpacing (concat (map (branchIds ns) (displacedSiblings ns s p w))) s)"
proof -
  from find_SomeD [OF node] have w: "w \<in> set ns" by simp
  from parent(3) obtain P where P: "find (\<lambda>n. ident n = p) ns = Some P"
    using find_Some_ex [of _ ns "\<lambda>n. ident n = p"] by auto
  from find_SomeD [OF P] have iP: "ident P = p" by simp
  let ?K = "Suc (length ns)"
  from ppos obtain pp where pp: "map_of s (ident P) = Some pp" unfolding iP by auto
  have un: "shiftAllAncestorSiblings nodeId ns s = ancestorWalk ?K w p ns s"
    by (simp add: shiftAllAncestorSiblings_def node parent P iP pp [unfolded iP] del: ancestorWalk.simps)
  from w obtain pre post where ns: "ns = pre @ w # post" by (auto dest: split_list)
  then have "length pre < ?K" by simp
  from wf_ancestorWalk [OF wf ns this, of p s] have "ancestorWalk ?K w p ns s \<noteq> None" by auto
  from ancestorWalk_walkList [OF this]
  have wl: "ancestorWalk ?K w p ns s = walkList p ns (ancestorsUp ?K ns w) s" .
  note cp = wf_chain_props [OF wf w parent(1)]
  from walkList_char [OF wf cp, of "[]" "ancestorsUp ?K ns w" s]
  have "walkList p ns (ancestorsUp ?K ns w) s
        = Some (shiftIds horizontalSpacing (concat (map (branchIds ns) (displacedSiblings ns s p w))) s)"
    by (simp add: shiftIds_Nil displacedSiblings_def)
  with un wl show ?thesis by simp
qed

lemma chain_complete:
  assumes wf: "parentsFirst ns"
    and ne: "\<forall>n \<in> set ns. \<forall>m \<in> set ns. parentId n = Some (ident m) \<longrightarrow> ident m \<noteq> []"
    and A: "A \<in> set ns"
  shows "ns = pre @ w # post \<Longrightarrow> length pre < k \<Longrightarrow> ident w \<in> set (descs ns (ident A)) \<Longrightarrow>
         A \<in> set (ancestorsUp k ns w)"
proof (induction k arbitrary: pre w post)
  case 0
  then show ?case by simp
next
  case (Suc k)
  have w: "w \<in> set ns" using Suc.prems(1) by simp
  from wf_descs_node [OF wf w Suc.prems(3)] obtain q where q: "parentId w = Some q"
    "q = ident A \<or> q \<in> set (descs ns (ident A))" by blast
  from q(2) wf_descs_subset [OF wf, of "ident A"] A obtain Q where Q: "Q \<in> set ns" "ident Q = q" by auto
  from ne w Q(1) q(1) [folded Q(2)] have "ident Q \<noteq> []" by blast
  with Q(2) have q0: "q \<noteq> []" by simp
  from find_unique [OF parentsFirst_distinct [OF wf] Q(1)] Q(2)
  have f: "find (\<lambda>n. ident n = q) ns = Some Q" by simp
  have u: "ancestorsUp (Suc k) ns w = Q # ancestorsUp k ns Q" by (simp add: q(1) q0 f)
  show ?case
  proof (cases "q = ident A")
    case True
    with Q wf_inj_ident [OF wf Q(1) A] have "Q = A" by simp
    then show ?thesis unfolding u by simp
  next
    case False
    with q(2) Q(2) have d: "ident Q \<in> set (descs ns (ident A))" by simp
    from parentsFirst_split [of pre w post Q] wf Suc.prems(1) q(1) Q(2) have "Q \<notin> set (w # post)" by auto
    with Q(1) Suc.prems(1) have "Q \<in> set pre" by auto
    then obtain pre1 post1 where pre: "pre = pre1 @ Q # post1" by (auto dest: split_list)
    then have ns: "ns = pre1 @ Q # (post1 @ w # post)" using Suc.prems(1) by simp
    have "length pre1 < k" using pre Suc.prems(2) by simp
    from Suc.IH [OF ns this d] show ?thesis unfolding u by simp
  qed
qed

lemma moved_cases:
  assumes "u \<in> set (concat (map (branchIds N) (displacedSiblings N s p w)))"
  obtains A S where "A \<in> set (ancestorsUp (Suc (length N)) N w)" "S \<in> set (siblingsOf N A)"
    "rightOf s p S" "u \<in> set (branchIds N S)"
  using assms by (auto simp: displacedSiblings_def simp del: ancestorsUp.simps)

lemma moved_intro:
  "A \<in> set (ancestorsUp (Suc (length N)) N w) \<Longrightarrow> S \<in> set (siblingsOf N A) \<Longrightarrow> rightOf s p S \<Longrightarrow>
   u \<in> set (branchIds N S) \<Longrightarrow> u \<in> set (concat (map (branchIds N) (displacedSiblings N s p w)))"
  by (auto simp: displacedSiblings_def simp del: ancestorsUp.simps)

lemma siblingsOf_mem:
  "S \<in> set (siblingsOf N A) \<longleftrightarrow> S \<in> set N \<and> parentId S = parentId A \<and> ident S \<noteq> ident A"
  by (auto simp: siblingsOf_def)

lemma rightOf_iff:
  "rightOf s p S \<longleftrightarrow>
   (\<exists>siblingPos parentPos. map_of s (ident S) = Some siblingPos \<and> map_of s p = Some parentPos \<and>
                            fst parentPos < fst siblingPos)"
  by (auto simp: rightOf_def split: option.splits)

lemma branchIds_iff:
  "parentsFirst ns \<Longrightarrow> k \<in> set (branchIds ns S) \<longleftrightarrow> k = ident S \<or> isDescendant ns (ident S) k"
  using wf_descs_iff [of ns k "ident S"] by (auto simp: branchIds_def)

lemma isDescendant_node: "isDescendant ns i d \<Longrightarrow> d \<in> ident ` set ns"
  by (induction rule: isDescendant.induct) auto

lemma displacedBy_iff:
  assumes wf: "parentsFirst ns" and ids: "[] \<notin> ident ` set ns"
    and w: "w \<in> set ns" and par: "parentId w = Some p"
  shows "k \<in> set (concat (map (branchIds ns) (displacedSiblings ns s p w))) \<longleftrightarrow> displacedBy ns s p k"
proof
  assume "k \<in> set (concat (map (branchIds ns) (displacedSiblings ns s p w)))"
  then obtain A S where AS: "A \<in> set (ancestorsUp (Suc (length ns)) ns w)" "S \<in> set (siblingsOf ns A)"
    "rightOf s p S" "k \<in> set (branchIds ns S)" by (rule moved_cases)
  from ancestorsUp_facts [OF wf w AS(1)] have A: "A \<in> set ns" "ident w \<in> set (descs ns (ident A))" by auto
  from wf_descs_node [OF wf w A(2)] par have "p = ident A \<or> p \<in> set (descs ns (ident A))" by auto
  then have 1: "ident A = p \<or> isDescendant ns (ident A) p" using wf_descs_iff [OF wf] by blast
  from AS(2) have S: "S \<in> set ns" "parentId S = parentId A" "ident S \<noteq> ident A"
    by (simp_all add: siblingsOf_mem)
  from AS(3) have 2: "\<exists>siblingPos parentPos. map_of s (ident S) = Some siblingPos \<and>
      map_of s p = Some parentPos \<and> fst parentPos < fst siblingPos" by (simp only: rightOf_iff)
  from AS(4) have 3: "k = ident S \<or> isDescendant ns (ident S) k" by (simp only: branchIds_iff [OF wf])
  from A(1) S 1 2 3 show "displacedBy ns s p k" unfolding displacedBy_def by blast
next
  assume "displacedBy ns s p k"
  then obtain A S where A: "A \<in> set ns" and S: "S \<in> set ns"
    and 1: "ident A = p \<or> isDescendant ns (ident A) p"
    and sib: "parentId S = parentId A" "ident S \<noteq> ident A"
    and 2: "\<exists>siblingPos parentPos. map_of s (ident S) = Some siblingPos \<and>
      map_of s p = Some parentPos \<and> fst parentPos < fst siblingPos"
    and 3: "k = ident S \<or> isDescendant ns (ident S) k"
    unfolding displacedBy_def by blast
  from 1 have "p \<in> set (ident A # descs ns (ident A))" using wf_descs_iff [OF wf] by auto
  from wf_descs_closed [OF wf w par this] have wA: "ident w \<in> set (descs ns (ident A))" .
  from w obtain pre post where ns: "ns = pre @ w # post" by (auto dest: split_list)
  then have len: "length pre < Suc (length ns)" by simp
  have ne: "\<forall>n \<in> set ns. \<forall>m \<in> set ns. parentId n = Some (ident m) \<longrightarrow> ident m \<noteq> []"
    using ids by (auto simp: image_iff)
  from chain_complete [OF wf ne A ns len wA]
  have chain: "A \<in> set (ancestorsUp (Suc (length ns)) ns w)" .
  from S sib have sibs: "S \<in> set (siblingsOf ns A)" by (simp add: siblingsOf_mem)
  from 2 have r: "rightOf s p S" by (simp only: rightOf_iff)
  from 3 have b: "k \<in> set (branchIds ns S)" by (simp only: branchIds_iff [OF wf])
  from moved_intro [OF chain sibs r b]
  show "k \<in> set (concat (map (branchIds ns) (displacedSiblings ns s p w)))" .
qed

lemma displacedBy_parent:
  "displacedBy ns s p k \<Longrightarrow> p \<in> ident ` set ns \<and> map_of s p \<noteq> None"
  unfolding displacedBy_def using isDescendant_node [of ns _ p] by auto

text \<open>
  C6, as the code has it: the step for a node \<open>w\<close> of a well-formed snapshot whose parent
  id is \<open>p\<close>.  The walk examines \<open>p\<close> itself first, then the ancestors of \<open>p\<close>; for each such
  \<open>A\<close> the siblings of \<open>A\<close> whose \<open>x\<close> is greater than the \<open>x\<close> of \<open>p\<close> (not of \<open>p\<close>'s
  parent) are displaced.  The store after the step is the store before it with exactly the
  entries of the displaced siblings and of all their descendants moved right by one
  \<open>horizontalSpacing\<close>, each once; nothing else changes.  (When \<open>p\<close> is no node or has no
  entry, nothing is displaced.)
\<close>

theorem shiftAllAncestorSiblings_displaces:
  assumes wf: "parentsFirst ns" and ids: "[] \<notin> ident ` set ns" and keys: "distinct (map fst s)"
    and node: "w \<in> set ns" and parent: "parentId w = Some p"
  shows "shiftAllAncestorSiblings (ident w) ns s
         = Some (map (\<lambda>(k, pos). if displacedBy ns s p k
                                  then (k, (fst pos + horizontalSpacing, snd pos)) else (k, pos)) s)"
proof (cases "p \<in> ident ` set ns \<and> map_of s p \<noteq> None")
  case True
  then have pin: "p \<in> ident ` set ns" and ppos: "map_of s p \<noteq> None" by simp_all
  from pin ids have p0: "p \<noteq> []" by (auto simp: image_iff)
  from find_unique [OF parentsFirst_distinct [OF wf] node]
  have fw: "find (\<lambda>n. ident n = ident w) ns = Some w" .
  show ?thesis
    unfolding shiftAllAncestorSiblings_char [OF wf fw parent p0 pin ppos]
      shiftIds_distinct [OF keys displaced_distinct [OF wf node parent]]
      displacedBy_iff [OF wf ids node parent]
    by (rule refl)
next
  case False
  with displacedBy_parent have no: "\<not> displacedBy ns s p k" for k by blast
  have "map (\<lambda>(k, pos). if displacedBy ns s p k
                             then (k, (fst pos + horizontalSpacing, snd pos)) else (k, pos)) t = t" for t
    by (induction t) (auto simp: no)
  then have id: "map (\<lambda>(k, pos). if displacedBy ns s p k
                             then (k, (fst pos + horizontalSpacing, snd pos)) else (k, pos)) s = s" .
  from find_unique [OF parentsFirst_distinct [OF wf] node]
  have fw: "find (\<lambda>n. ident n = ident w) ns = Some w" .
  have "shiftAllAncestorSiblings (ident w) ns s = Some s"
  proof (cases "find (\<lambda>n. ident n = p) ns")
    case None
    then show ?thesis by (simp add: shiftAllAncestorSiblings_def fw parent)
  next
    case (Some P)
    from find_SomeD [OF Some] have P: "P \<in> set ns" "ident P = p" by simp_all
    from P have "p \<in> ident ` set ns" by blast
    with False have "\<not> map_of s p \<noteq> None" by blast
    then have "map_of s p = None" by (cases "map_of s p") simp_all
    then show ?thesis by (simp add: shiftAllAncestorSiblings_def fw parent Some P(2))
  qed
  then show ?thesis unfolding id .
qed

text \<open>
  C6 as stated fails, however its walk is read.  In the tree \<open>R\<close> with children \<open>A\<close>, \<open>B\<close>
  and \<open>A1\<close> under \<open>A\<close>, laid out as \<open>exampleStore\<close>, the branch \<open>A2\<close> is inserted under
  \<open>A\<close>: the only ancestor of \<open>A\<close> is the root, which has no sibling, and yet \<open>B\<close>, a
  sibling of \<open>A\<close> itself, is moved from \<open>x = 450\<close> to \<open>x = 900\<close>; the walk examines the
  parent of the new node first.  In the tree \<open>R\<close> with children \<open>A\<close>, \<open>B\<close>, \<open>C\<close> and \<open>C1\<close>
  under \<open>C\<close>, laid out as \<open>wideStore\<close>, the branch \<open>C2\<close> is inserted under \<open>C\<close>: the
  sibling \<open>B\<close> of \<open>C\<close> has \<open>x = 450\<close>, greater than the \<open>x = 0\<close> of \<open>C\<close>'s parent \<open>R\<close>, and
  is not moved (it is not to the right of \<open>C\<close>, at \<open>x = 900\<close>).
\<close>

theorem shiftAllAncestorSiblings_compares_with_parent:
  "layoutAfterEach [] exampleNodes [] = Some exampleStore \<and>
   shiftAllAncestorSiblings ''A2'' (nodes exampleBranch) exampleStore
   = Some [(''R'', (0, 0)), (''A'', (0, 180)), (''B'', (900, 180)), (''A1'', (0, 360))] \<and>
   layoutAfterEach [] wideNodes [] = Some wideStore \<and>
   shiftAllAncestorSiblings ''C2''
     (wideNodes @ [\<lparr>ident = ''C2'', parentId = Some ''C'', timestamp = 5\<rparr>]) wideStore
   = Some wideStore"
  by code_simp

lemma deepNodes_displaced:
  "concat (map (branchIds deepNodes)
     (displacedSiblings deepNodes deepStore ''A''
        \<lparr>ident = ''A2'', parentId = Some ''A'', timestamp = 5\<rparr>)) = [''B'', ''B1'']"
  by code_simp

lemma deepNodes_session: "layoutAfterEach [] (butlast deepNodes) [] = Some deepStore"
  by code_simp

theorem shiftAllAncestorSiblings_displaces_witness:
  "parentsFirst deepNodes \<and> [] \<notin> ident ` set deepNodes \<and> distinct (map fst deepStore) \<and>
   \<lparr>ident = ''A2'', parentId = Some ''A'', timestamp = 5\<rparr> \<in> set deepNodes \<and>
   shiftAllAncestorSiblings ''A2'' deepNodes deepStore
     = Some [(''R'', (0, 0)), (''A'', (0, 180)), (''B'', (900, 180)), (''A1'', (0, 360)), (''B1'', (900, 360))]"
proof -
  let ?w = "\<lparr>ident = ''A2'', parentId = Some ''A'', timestamp = 5\<rparr>"
  have h1: "parentsFirst deepNodes" by (simp add: deepNodes_def)
  have h2: "[] \<notin> ident ` set deepNodes" by (simp add: deepNodes_def)
  have h3: "distinct (map fst deepStore)" by (simp add: deepStore_def)
  have h4: "?w \<in> set deepNodes" by (simp add: deepNodes_def)
  have h5: "parentId ?w = Some ''A''" by simp
  have d: "displacedBy deepNodes deepStore ''A'' k \<longleftrightarrow> k \<in> set [''B'', ''B1'']" for k
    using displacedBy_iff [OF h1 h2 h4 h5, of k deepStore] by (simp only: deepNodes_displaced)
  note t = shiftAllAncestorSiblings_displaces [OF h1 h2 h3 h4 h5, unfolded d]
  from t have "shiftAllAncestorSiblings ''A2'' deepNodes deepStore
     = Some [(''R'', (0, 0)), (''A'', (0, 180)), (''B'', (900, 180)), (''A1'', (0, 360)), (''B1'', (900, 360))]"
    by (simp add: deepStore_def horizontalSpacing_def)
  with h1 h2 h3 h4 show ?thesis by (intro conjI)
qed

section \<open>Trees: the layout invariant of insertion sessions\<close>

lemma wf_parent_induct_aux:
  assumes wf: "parentsFirst ns"
    and step: "\<And>n. n \<in> set ns \<Longrightarrow> (\<And>m. m \<in> set ns \<Longrightarrow> parentId n = Some (ident m) \<Longrightarrow> Q m) \<Longrightarrow> Q n"
  shows "ns = pre @ post \<Longrightarrow> \<forall>n \<in> set pre. Q n"
proof (induction pre arbitrary: post rule: rev_induct)
  case Nil
  then show ?case by simp
next
  case (snoc l pre)
  from snoc.prems have ns: "ns = pre @ l # post" by simp
  from snoc.IH [OF ns] have old: "\<forall>n \<in> set pre. Q n" .
  have "Q l"
  proof (rule step)
    show "l \<in> set ns" using ns by simp
    fix m assume m: "m \<in> set ns" "parentId l = Some (ident m)"
    from parentsFirst_split [of pre l post m] wf ns m(2) have "m \<notin> set (l # post)" by auto
    with m(1) ns have "m \<in> set pre" by auto
    with old show "Q m" by blast
  qed
  with old show ?case by simp
qed

lemma wf_parent_induct [consumes 2, case_names node]:
  assumes wf: "parentsFirst ns" and n: "n \<in> set ns"
    and step: "\<And>n. n \<in> set ns \<Longrightarrow> (\<And>m. m \<in> set ns \<Longrightarrow> parentId n = Some (ident m) \<Longrightarrow> Q m) \<Longrightarrow> Q n"
  shows "Q n"
proof -
  have "\<forall>n \<in> set ns. Q n"
  proof (rule wf_parent_induct_aux [of ns Q ns "[]"])
    show "parentsFirst ns" by (rule wf)
  next
    fix n assume "n \<in> set ns" and "\<And>m. m \<in> set ns \<Longrightarrow> parentId n = Some (ident m) \<Longrightarrow> Q m"
    then show "Q n" by (rule step)
  next
    show "ns = ns @ []" by simp
  qed
  with n show ?thesis by blast
qed

lemma singleRoot_parent:
  assumes "singleRoot ns" and "n \<in> set ns" and "parentId n \<noteq> None"
  shows "\<exists>m \<in> set ns. parentId n = Some (ident m) \<and> ident m \<noteq> []"
  using assms by (cases ns) (auto simp: singleRoot_def)

lemma singleRoot_root:
  assumes "singleRoot ns" and "n \<in> set ns" and "parentId n = None"
  shows "n = hd ns"
  using assms by (cases ns) (auto simp: singleRoot_def)

lemma singleRoot_no_empty_parent:
  "singleRoot ns \<Longrightarrow> n \<in> set ns \<Longrightarrow> parentId n \<noteq> Some []"
  by (cases ns) (auto simp: singleRoot_def)

lemma in_root_branch:
  assumes wf: "parentsFirst ns" and sr: "singleRoot ns" and n: "n \<in> set ns"
  shows "ident n \<in> set (branchIds ns (hd ns))"
  using wf n
proof (induction n rule: wf_parent_induct)
  case (node n)
  show ?case
  proof (cases "parentId n")
    case None
    from singleRoot_root [OF sr node(1) None] show ?thesis by (simp add: branchIds_def)
  next
    case (Some p)
    with singleRoot_parent [OF sr node(1)] obtain m where m: "m \<in> set ns" "parentId n = Some (ident m)"
      by auto
    from node(2) [OF m] have "ident m \<in> set (ident (hd ns) # descs ns (ident (hd ns)))"
      by (simp add: branchIds_def)
    from wf_descs_closed [OF wf node(1) m(2) this] show ?thesis by (simp add: branchIds_def)
  qed
qed

lemma branch_closed:
  "parentsFirst ns \<Longrightarrow> m \<in> set ns \<Longrightarrow> parentId m = Some p \<Longrightarrow> p \<in> set (branchIds ns S) \<Longrightarrow>
   ident m \<in> set (branchIds ns S)"
  using wf_descs_closed [of ns m p "ident S"] by (simp add: branchIds_def)

lemma descs_in_child_branch:
  assumes wf: "parentsFirst ns" and d: "d \<in> set (descs ns p)"
  shows "\<exists>c \<in> set (children ns p). d \<in> set (branchIds ns c)"
  using d unfolding wf_descs_unfold [OF wf, of p] by (auto simp: branchIds_def)

lemma child_index:
  "c \<in> set (children ns p) \<Longrightarrow> \<exists>i < length (children ns p). children ns p ! i = c"
  by (simp add: in_set_conv_nth)

lemma lca:
  assumes wf: "parentsFirst ns" and sr: "singleRoot ns" and U: "U \<in> set ns"
  shows "V \<in> set ns \<Longrightarrow>
         ident U \<notin> set (branchIds ns V) \<Longrightarrow> ident V \<notin> set (branchIds ns U) \<Longrightarrow>
         \<exists>q i j. i \<noteq> j \<and> i < length (children ns q) \<and> j < length (children ns q) \<and>
                 ident U \<in> set (branchIds ns (children ns q ! i)) \<and>
                 ident V \<in> set (branchIds ns (children ns q ! j))"
  using wf U
proof (induction U rule: wf_parent_induct)
  case (node U)
  show ?case
  proof (cases "parentId U")
    case None
    from singleRoot_root [OF sr node(1) None] in_root_branch [OF wf sr node(3)] node(5)
    show ?thesis by simp
  next
    case (Some q)
    with singleRoot_parent [OF sr node(1)] obtain PU where PU: "PU \<in> set ns" "parentId U = Some (ident PU)"
      by auto
    have Uc: "U \<in> set (children ns (ident PU))" using node(1) PU(2) by (simp add: children_def)
    show ?thesis
    proof (cases "ident V \<in> set (branchIds ns PU)")
      case True
      have "ident V \<noteq> ident PU"
      proof
        assume "ident V = ident PU"
        with wf_descs_child [OF wf node(1) PU(2)] node(4) show False by (simp add: branchIds_def)
      qed
      with True have "ident V \<in> set (descs ns (ident PU))" by (simp add: branchIds_def)
      from descs_in_child_branch [OF wf this] obtain c where c: "c \<in> set (children ns (ident PU))"
        "ident V \<in> set (branchIds ns c)" by blast
      from c(2) node(5) have "c \<noteq> U" by auto
      from child_index [OF Uc] obtain i where i: "i < length (children ns (ident PU))"
        "children ns (ident PU) ! i = U" by blast
      from child_index [OF c(1)] obtain j where j: "j < length (children ns (ident PU))"
        "children ns (ident PU) ! j = c" by blast
      from i j \<open>c \<noteq> U\<close> have "i \<noteq> j" by auto
      moreover have "ident U \<in> set (branchIds ns (children ns (ident PU) ! i))"
        using i(2) by (simp add: branchIds_def)
      moreover have "ident V \<in> set (branchIds ns (children ns (ident PU) ! j))"
        using j(2) c(2) by simp
      ultimately show ?thesis using i(1) j(1) by blast
    next
      case False
      have "ident PU \<notin> set (branchIds ns V)"
      proof
        assume "ident PU \<in> set (branchIds ns V)"
        from branch_closed [OF wf node(1) PU(2) this] node(4) show False by simp
      qed
      from node(2) [OF PU node(3) this False] obtain q' i j where r: "i \<noteq> j"
        "i < length (children ns q')" "j < length (children ns q')"
        "ident PU \<in> set (branchIds ns (children ns q' ! i))"
        "ident V \<in> set (branchIds ns (children ns q' ! j))" by blast
      from branch_closed [OF wf node(1) PU(2) r(4)] r show ?thesis by blast
    qed
  qed
qed

lemma tidy_keys: "tidy ns s \<Longrightarrow> placed s k \<Longrightarrow> k \<in> ident ` set ns"
  unfolding tidy_def placed_def by (auto simp: map_of_eq_None_iff)

lemma snoc_fresh:
  assumes "parentsFirst (ns @ [w])" and "tidy ns s" and "placed s k"
  shows "k \<noteq> ident w"
proof -
  from assms(1) have "ident w \<notin> ident ` set ns" by (simp add: parentsFirst_snoc)
  with tidy_keys [OF assms(2,3)] show ?thesis by blast
qed

lemma snoc_descs_old:
  assumes wf: "parentsFirst (ns @ [w])" and d: "d \<in> set (descs (ns @ [w]) i)" and ne: "d \<noteq> ident w"
  shows "d \<in> set (descs ns i)"
  using d ne unfolding wf_descs_snoc [OF wf] by (auto split: if_splits)

lemma snoc_descs_new: "parentsFirst (ns @ [w]) \<Longrightarrow> descs (ns @ [w]) (ident w) = []"
  using wf_descs_leaf [of "ns @ [w]" "ident w"] by (simp add: parentsFirst_snoc)

lemma snoc_branch_old:
  assumes wf: "parentsFirst (ns @ [w])" and u: "u \<in> set (branchIds (ns @ [w]) c)" and ne: "u \<noteq> ident w"
  shows "u \<in> set (branchIds ns c)"
  using u ne snoc_descs_old [OF wf, of u "ident c"] by (auto simp: branchIds_def)

lemma snoc_children_nth:
  assumes "j < length (children (ns @ [w]) p)" and "children (ns @ [w]) p ! j \<noteq> w"
  shows "j < length (children ns p) \<and> children (ns @ [w]) p ! j = children ns p ! j"
  using assms by (auto simp: children_snoc nth_append split: if_splits)

lemma snoc_branch_placed:
  assumes wf: "parentsFirst (ns @ [w])" and ne: "u \<noteq> ident w"
    and j: "j < length (children (ns @ [w]) p)"
    and u: "u \<in> set (branchIds (ns @ [w]) (children (ns @ [w]) p ! j))"
  shows "j < length (children ns p) \<and> u \<in> set (branchIds ns (children ns p ! j))"
proof -
  have "children (ns @ [w]) p ! j \<noteq> w"
  proof
    assume "children (ns @ [w]) p ! j = w"
    with u ne show False by (simp add: branchIds_def snoc_descs_new [OF wf])
  qed
  from snoc_children_nth [OF j this] snoc_branch_old [OF wf u ne] show ?thesis by simp
qed

lemma tidy_snoc:
  assumes wf: "parentsFirst (ns @ [w])" and t: "tidy ns s"
  shows "tidy (ns @ [w]) s"
proof -
  note fr = snoc_fresh [OF wf t]
  have 1: "rightOfParent (ns @ [w]) s"
    using t fr snoc_descs_old [OF wf] unfolding tidy_def rightOfParent_def by blast
  have 2: "belowParent (ns @ [w]) s"
    using t fr snoc_descs_old [OF wf] unfolding tidy_def belowParent_def by blast
  have 3: "firstChildAligned (ns @ [w]) s"
    unfolding firstChildAligned_def
  proof (intro allI impI)
    fix p c cs assume a: "children (ns @ [w]) p = c # cs \<and> placed s p \<and> placed s (ident c)"
    then have "c \<noteq> w" using fr by auto
    with a obtain cs' where "children ns p = c # cs'"
      by (cases "children ns p") (auto simp: children_snoc split: if_splits)
    with t a show "xOf s (ident c) = xOf s p \<and> yOf s (ident c) = yOf s p + verticalSpacing"
      unfolding tidy_def firstChildAligned_def by blast
  qed
  have 4: "siblingsApart (ns @ [w]) s"
    unfolding siblingsApart_def
  proof (intro allI impI)
    fix p i j u v
    assume a: "i < j \<and> j < length (children (ns @ [w]) p) \<and>
        u \<in> set (branchIds (ns @ [w]) (children (ns @ [w]) p ! i)) \<and>
        v \<in> set (branchIds (ns @ [w]) (children (ns @ [w]) p ! j)) \<and> placed s u \<and> placed s v"
    then have i: "i < length (children (ns @ [w]) p)" by simp
    from a fr have ne: "u \<noteq> ident w" "v \<noteq> ident w" by blast+
    from snoc_branch_placed [OF wf ne(1) i] a have "u \<in> set (branchIds ns (children ns p ! i))" by blast
    moreover from snoc_branch_placed [OF wf ne(2)] a
    have "j < length (children ns p) \<and> v \<in> set (branchIds ns (children ns p ! j))" by blast
    ultimately show "xOf s u + horizontalSpacing \<le> xOf s v"
      using t a unfolding tidy_def siblingsApart_def by blast
  qed
  from t have "fst ` set s \<subseteq> ident ` set (ns @ [w])" by (auto simp: tidy_def)
  with t 1 2 3 4 show ?thesis by (simp add: tidy_def)
qed

lemma branch_trans:
  "parentsFirst ns \<Longrightarrow> k \<in> set (branchIds ns S) \<Longrightarrow> d \<in> set (descs ns k) \<Longrightarrow> d \<in> set (branchIds ns S)"
  using wf_descs_trans [of ns k "ident S"] by (auto simp: branchIds_def)

lemma child_branch_below:
  "parentsFirst ns \<Longrightarrow> c \<in> set (children ns p) \<Longrightarrow> set (branchIds ns c) \<subseteq> set (descs ns p)"
  unfolding wf_descs_unfold [of ns p] by (auto simp: branchIds_def)

lemma placed_xOf: "map_of s k = Some a \<Longrightarrow> placed s k \<and> xOf s k = fst a \<and> yOf s k = snd a"
  by (simp add: placed_def xOf_def yOf_def)

lemma placed_map_of: "placed s k \<Longrightarrow> map_of s k = Some (xOf s k, yOf s k)"
  by (auto simp: placed_def xOf_def yOf_def)

text \<open>In a tidy store of a single-root snapshot no two entries overlap.\<close>

lemma tidy_no_overlap:
  assumes wf: "parentsFirst ns" and sr: "singleRoot ns" and t: "tidy ns s"
    and u: "map_of s u = Some a" and v: "map_of s v = Some b" and ne: "u \<noteq> v"
  shows "\<not> wouldOverlap a b"
proof -
  note pu = placed_xOf [OF u] and pv = placed_xOf [OF v]
  from tidy_keys [OF t] pu pv obtain U V where U: "U \<in> set ns" "ident U = u" and V: "V \<in> set ns" "ident V = v"
    by blast
  from t have T5: "belowParent ns s" and T4: "siblingsApart ns s" by (simp_all add: tidy_def)
  consider (below) "u \<in> set (descs ns v)" | (above) "v \<in> set (descs ns u)"
    | (apart) "ident U \<notin> set (branchIds ns V)" "ident V \<notin> set (branchIds ns U)"
    using ne U V by (auto simp: branchIds_def)
  then show ?thesis
  proof cases
    case below
    with T5 pu pv have "yOf s v + verticalSpacing \<le> yOf s u" unfolding belowParent_def by blast
    with pu pv show ?thesis by (simp add: wouldOverlap_def verticalSpacing_def nodeHeight_def)
  next
    case above
    with T5 pu pv have "yOf s u + verticalSpacing \<le> yOf s v" unfolding belowParent_def by blast
    with pu pv show ?thesis by (simp add: wouldOverlap_def verticalSpacing_def nodeHeight_def)
  next
    case apart
    from lca [OF wf sr U(1) V(1) apart] U(2) V(2) obtain q i j where q: "i \<noteq> j"
      "i < length (children ns q)" "j < length (children ns q)"
      "u \<in> set (branchIds ns (children ns q ! i))" "v \<in> set (branchIds ns (children ns q ! j))"
      by blast
    have "xOf s u + horizontalSpacing \<le> xOf s v \<or> xOf s v + horizontalSpacing \<le> xOf s u"
    proof (cases "i < j")
      case True
      with T4 q pu pv show ?thesis unfolding siblingsApart_def by blast
    next
      case False
      with q(1) have "j < i" by simp
      with T4 q pu pv show ?thesis unfolding siblingsApart_def by blast
    qed
    with pu pv show ?thesis
      by (auto simp: wouldOverlap_def horizontalSpacing_def nodeWidth_def minHorizontalGap_def)
  qed
qed

lemma placed_append: "\<not> placed s w \<Longrightarrow> placed (s @ [(w, c)]) k \<longleftrightarrow> placed s k \<or> k = w"
  by (auto simp: placed_def map_add_def split: option.splits)

lemma xOf_append: "\<not> placed s w \<Longrightarrow> xOf (s @ [(w, c)]) k = (if k = w then fst c else xOf s k)"
  by (auto simp: placed_def xOf_def map_add_def split: option.splits)

lemma yOf_append: "\<not> placed s w \<Longrightarrow> yOf (s @ [(w, c)]) k = (if k = w then snd c else yOf s k)"
  by (auto simp: placed_def yOf_def map_add_def split: option.splits)

lemma placed_shiftIds: "placed (shiftIds a ids s) k = placed s k"
  by (simp add: placed_def shiftIds_map_of)

lemma yOf_shiftIds: "yOf (shiftIds a ids s) k = yOf s k"
  by (cases "map_of s k") (simp_all add: yOf_def shiftIds_map_of)

lemma distinct_count_list: "distinct xs \<Longrightarrow> count_list xs k = (if k \<in> set xs then 1 else 0)"
  by (induction xs) auto

lemma xOf_shiftIds:
  "distinct ids \<Longrightarrow> placed s k \<Longrightarrow> xOf (shiftIds a ids s) k = xOf s k + (if k \<in> set ids then a else 0)"
  by (cases "map_of s k") (simp_all add: placed_def xOf_def shiftIds_map_of distinct_count_list)

lemma children_mem: "c \<in> set (children ns q) \<longleftrightarrow> c \<in> set ns \<and> parentId c = Some q"
  by (simp add: children_def)

lemma new_in_branch:
  assumes wf: "parentsFirst (ns @ [w])" and par: "parentId w = Some p"
    and i: "i < length (children (ns @ [w]) q)"
    and m: "ident w \<in> set (branchIds (ns @ [w]) (children (ns @ [w]) q ! i))"
  shows "(q = p \<and> i = length (children ns p)) \<or>
         (i < length (children ns q) \<and> p \<in> set (branchIds ns (children ns q ! i)))"
proof (cases "children (ns @ [w]) q ! i = w")
  case True
  from wf have fr: "ident w \<notin> ident ` set ns" by (simp add: parentsFirst_snoc)
  from i True have "w \<in> set (children (ns @ [w]) q)" by (metis nth_mem)
  then have "parentId w = Some q" by (simp only: children_mem)
  with par have qp: "q = p" by simp
  have "w \<notin> set (children ns q)" using fr by (auto simp: children_def)
  then have "\<not> i < length (children ns q)" using True i
    by (auto simp: children_snoc nth_append split: if_splits)
  with i qp par show ?thesis by (simp add: children_snoc)
next
  case False
  from snoc_children_nth [OF i False] have il: "i < length (children ns q)"
    and eq: "children (ns @ [w]) q ! i = children ns q ! i" by simp_all
  let ?c = "children ns q ! i"
  from il have "?c \<in> set (children ns q)" by simp
  then have c: "?c \<in> set ns" by (simp add: children_def)
  from wf have fr: "ident w \<notin> ident ` set ns" by (simp add: parentsFirst_snoc)
  with c have "ident w \<noteq> ident ?c" by blast
  with m eq have "ident w \<in> set (descs (ns @ [w]) (ident ?c))" by (simp add: branchIds_def)
  then have "parentId w \<in> Some ` insert (ident ?c) (set (descs ns (ident ?c)))"
    using fr wf_descs_subset [of ns "ident ?c"] wf unfolding wf_descs_snoc [OF wf]
    by (auto simp: parentsFirst_snoc split: if_splits)
  with par have "p \<in> set (branchIds ns ?c)" by (auto simp: branchIds_def)
  with il show ?thesis by simp
qed

lemma tidy_extend:
  assumes wf: "parentsFirst (ns @ [w])" and t: "tidy ns s"
    and par: "parentId w = Some p" and pp: "placed s p"
    and first: "children ns p = [] \<Longrightarrow> xw = xOf s p"
    and xp: "xOf s p \<le> xw"
    and a: "\<And>u. u \<in> set (descs ns p) \<Longrightarrow> placed s u \<Longrightarrow> xOf s u + horizontalSpacing \<le> xw"
    and b: "\<And>q i j v. i < j \<Longrightarrow> j < length (children ns q) \<Longrightarrow>
              p \<in> set (branchIds ns (children ns q ! i)) \<Longrightarrow>
              v \<in> set (branchIds ns (children ns q ! j)) \<Longrightarrow> placed s v \<Longrightarrow>
              xw + horizontalSpacing \<le> xOf s v"
    and c: "\<And>q i j u. i < j \<Longrightarrow> j < length (children ns q) \<Longrightarrow>
              u \<in> set (branchIds ns (children ns q ! i)) \<Longrightarrow>
              p \<in> set (branchIds ns (children ns q ! j)) \<Longrightarrow> placed s u \<Longrightarrow>
              xOf s u + horizontalSpacing \<le> xw"
  shows "tidy (ns @ [w]) (s @ [(ident w, (xw, yOf s p + verticalSpacing))])"
proof -
  let ?N = "ns @ [w]" and ?s = "s @ [(ident w, (xw, yOf s p + verticalSpacing))]"
  note fr = snoc_fresh [OF wf t]
  from fr have un: "\<not> placed s (ident w)" by blast
  note pl = placed_append [OF un] and xo = xOf_append [OF un] and yo = yOf_append [OF un]
  from fr pp have pw: "p \<noteq> ident w" by blast
  have tN: "tidy ?N s" using wf t by (rule tidy_snoc)
  from tN have T2: "rightOfParent ?N s" and T5: "belowParent ?N s" and T3: "firstChildAligned ?N s"
    and T4: "siblingsApart ?N s" by (simp_all add: tidy_def)
  from t have T4o: "siblingsApart ns s" by (simp add: tidy_def)
  have w: "w \<in> set ?N" by simp
  have anc: "i = p \<or> p \<in> set (descs ?N i)" if "ident w \<in> set (descs ?N i)" for i
    using wf_descs_node [OF wf w that] par by auto
  have 1: "rightOfParent ?N ?s"
    unfolding rightOfParent_def
  proof (intro allI impI)
    fix i d assume h: "d \<in> set (descs ?N i) \<and> placed ?s i \<and> placed ?s d"
    have iw: "i \<noteq> ident w" using h snoc_descs_new [OF wf] by auto
    with h have pi: "placed s i" by (simp add: pl)
    show "xOf ?s i \<le> xOf ?s d"
    proof (cases "d = ident w")
      case True
      with h anc have "i = p \<or> p \<in> set (descs ?N i)" by blast
      with T2 pi pp have "xOf s i \<le> xOf s p" unfolding rightOfParent_def by auto
      with xp True iw show ?thesis by (simp add: xo)
    next
      case False
      with h have "placed s d" by (simp add: pl)
      with T2 h pi have "xOf s i \<le> xOf s d" unfolding rightOfParent_def by blast
      with False iw show ?thesis by (simp add: xo)
    qed
  qed
  have 2: "belowParent ?N ?s"
    unfolding belowParent_def
  proof (intro allI impI)
    fix i d assume h: "d \<in> set (descs ?N i) \<and> placed ?s i \<and> placed ?s d"
    have iw: "i \<noteq> ident w" using h snoc_descs_new [OF wf] by auto
    with h have pi: "placed s i" by (simp add: pl)
    show "yOf ?s i + verticalSpacing \<le> yOf ?s d"
    proof (cases "d = ident w")
      case True
      with h anc have "i = p \<or> p \<in> set (descs ?N i)" by blast
      moreover have "yOf s i + verticalSpacing \<le> yOf s p" if "p \<in> set (descs ?N i)"
        using T5 pi pp that unfolding belowParent_def by blast
      ultimately have "yOf s i \<le> yOf s p" by (auto simp: verticalSpacing_def)
      with True iw show ?thesis by (simp add: yo)
    next
      case False
      with h have "placed s d" by (simp add: pl)
      with T5 h pi have "yOf s i + verticalSpacing \<le> yOf s d" unfolding belowParent_def by blast
      with False iw show ?thesis by (simp add: yo)
    qed
  qed
  have 3: "firstChildAligned ?N ?s"
    unfolding firstChildAligned_def
  proof (intro allI impI)
    fix q c' cs assume h: "children ?N q = c' # cs \<and> placed ?s q \<and> placed ?s (ident c')"
    have "children ?N (ident w) = []" using wf by (auto simp: parentsFirst_snoc children_def filter_empty_conv)
    with h have qw: "q \<noteq> ident w" by auto
    with h have pq: "placed s q" by (simp add: pl)
    show "xOf ?s (ident c') = xOf ?s q \<and> yOf ?s (ident c') = yOf ?s q + verticalSpacing"
    proof (cases "ident c' = ident w")
      case True
      have "c' \<in> set (children ?N q)" using h by simp
      then have c'N: "c' \<in> set ?N" and pc: "parentId c' = Some q" by (simp_all only: children_mem)
      from wf_inj_ident [OF wf c'N w True] have cw: "c' = w" .
      with pc par have qp: "q = p" by simp
      have "w \<notin> set ns" using wf by (auto simp: parentsFirst_snoc)
      then have "w \<notin> set (children ns p)" by (simp add: children_def)
      with h cw qp have "children ns p = []"
        by (cases "children ns p") (auto simp: children_snoc split: if_splits)
      from first [OF this] True qp pw show ?thesis by (simp add: xo yo)
    next
      case False
      with h have "placed s (ident c')" by (simp add: pl)
      with T3 h pq have "xOf s (ident c') = xOf s q \<and> yOf s (ident c') = yOf s q + verticalSpacing"
        unfolding firstChildAligned_def by blast
      with False qw show ?thesis by (simp add: xo yo)
    qed
  qed
  have 4: "siblingsApart ?N ?s"
    unfolding siblingsApart_def
  proof (intro allI impI)
    fix q i j u v
    assume h: "i < j \<and> j < length (children ?N q) \<and>
        u \<in> set (branchIds ?N (children ?N q ! i)) \<and> v \<in> set (branchIds ?N (children ?N q ! j)) \<and>
        placed ?s u \<and> placed ?s v"
    then have il: "i < length (children ?N q)" and jl: "j < length (children ?N q)" and ij: "i < j" by simp_all
    have disj: "u \<noteq> v"
    proof
      assume "u = v"
      with h T4 have "placed s u \<Longrightarrow> xOf s u + horizontalSpacing \<le> xOf s u"
        unfolding siblingsApart_def by blast
      then have uw: "u = ident w" using h by (auto simp: pl horizontalSpacing_def)
      with h \<open>u = v\<close> new_in_branch [OF wf par il] new_in_branch [OF wf par jl]
      have "(q = p \<and> i = length (children ns p)) \<or>
         (i < length (children ns q) \<and> p \<in> set (branchIds ns (children ns q ! i)))"
        and "(q = p \<and> j = length (children ns p)) \<or>
         (j < length (children ns q) \<and> p \<in> set (branchIds ns (children ns q ! j)))" by blast+
      then consider "i = length (children ns p)" "q = p"
        | "i < length (children ns q)" "p \<in> set (branchIds ns (children ns q ! i))" "q = p" "j = length (children ns p)"
        | "j < length (children ns q)" "p \<in> set (branchIds ns (children ns q ! i))"
          "p \<in> set (branchIds ns (children ns q ! j))" using ij by force
      then show False
      proof cases
        case 1
        with ij jl par show False by (simp add: children_snoc)
      next
        case 2
        then have "children ns p ! i \<in> set (children ns p)" by simp
        from child_branch_below [OF parentsFirst_prefix [OF wf] this] 2
        have "p \<in> set (descs ns p)" by auto
        with wf_descs_irrefl [OF parentsFirst_prefix [OF wf]] show False by blast
      next
        case 3
        with T4o ij pp have "xOf s p + horizontalSpacing \<le> xOf s p" unfolding siblingsApart_def by blast
        then show False by (simp add: horizontalSpacing_def)
      qed
    qed
    show "xOf ?s u + horizontalSpacing \<le> xOf ?s v"
    proof (cases "u = ident w")
      case True
      with disj have vw: "v \<noteq> ident w" by simp
      with h have pv: "placed s v" by (simp add: pl)
      from snoc_branch_placed [OF wf vw jl] h have v: "j < length (children ns q)"
        "v \<in> set (branchIds ns (children ns q ! j))" by simp_all
      from new_in_branch [OF wf par il] h True
      have "(q = p \<and> i = length (children ns p)) \<or>
         (i < length (children ns q) \<and> p \<in> set (branchIds ns (children ns q ! i)))" by simp
      with ij v(1) have "p \<in> set (branchIds ns (children ns q ! i))" by auto
      from b [OF ij v(1) this v(2) pv] True vw show ?thesis by (simp add: xo)
    next
      case False
      with h have pu: "placed s u" by (simp add: pl)
      from snoc_branch_placed [OF wf False il] h have u: "i < length (children ns q)"
        "u \<in> set (branchIds ns (children ns q ! i))" by simp_all
      show ?thesis
      proof (cases "v = ident w")
        case True
        from new_in_branch [OF wf par jl] h True
        consider "q = p" "j = length (children ns p)"
          | "j < length (children ns q)" "p \<in> set (branchIds ns (children ns q ! j))" by auto
        then have "xOf s u + horizontalSpacing \<le> xw"
        proof cases
          case 1
          from u 1 have "children ns p ! i \<in> set (children ns p)" by simp
          from child_branch_below [OF parentsFirst_prefix [OF wf] this] u 1
          have "u \<in> set (descs ns p)" by auto
          from a [OF this pu] show ?thesis .
        next
          case 2
          from c [OF ij 2(1) u(2) 2(2) pu] show ?thesis .
        qed
        with True False show ?thesis by (simp add: xo)
      next
        case vw: False
        with h have pv: "placed s v" by (simp add: pl)
        with T4 h pu have "xOf s u + horizontalSpacing \<le> xOf s v" unfolding siblingsApart_def by blast
        with False vw show ?thesis by (simp add: xo)
      qed
    qed
  qed
  from t un have d: "distinct (map fst ?s)" by (auto simp: tidy_def placed_def map_of_eq_None_iff)
  from t have k: "fst ` set ?s \<subseteq> ident ` set ?N" by (auto simp: tidy_def)
  from d k 1 2 3 4 show ?thesis by (simp add: tidy_def)
qed

lemma tidy_shift:
  assumes wf: "parentsFirst ns" and t: "tidy ns s" and dm: "distinct ms" and pp: "placed s p"
    and G1: "\<And>u a. u \<in> set ms \<Longrightarrow> placed s u \<Longrightarrow> a = p \<or> a \<in> set (descs ns p) \<Longrightarrow> placed s a \<Longrightarrow>
               xOf s a + horizontalSpacing \<le> xOf s u"
    and G2: "\<And>u. placed s u \<Longrightarrow> u \<noteq> p \<Longrightarrow> u \<notin> set (descs ns p) \<Longrightarrow> xOf s p < xOf s u \<Longrightarrow> u \<in> set ms"
    and G3: "\<And>i d. i \<in> set ms \<Longrightarrow> d \<in> set (descs ns i) \<Longrightarrow> d \<in> set ms"
  shows "tidy ns (shiftIds horizontalSpacing ms s)"
proof -
  let ?s = "shiftIds horizontalSpacing ms s"
  note pl = placed_shiftIds and yo = yOf_shiftIds and xo = xOf_shiftIds [OF dm]
  from t have T2: "rightOfParent ns s" and T5: "belowParent ns s" and T3: "firstChildAligned ns s"
    and T4: "siblingsApart ns s" by (simp_all add: tidy_def)
  have H: "0 < horizontalSpacing" by (simp add: horizontalSpacing_def)
  have inP: "u \<notin> set ms" if "placed s u" "u = p \<or> u \<in> set (descs ns p)" for u
    using G1 [of u u] that H by fastforce
  have 1: "rightOfParent ns ?s"
    unfolding rightOfParent_def
  proof (intro allI impI)
    fix i d assume h: "d \<in> set (descs ns i) \<and> placed ?s i \<and> placed ?s d"
    then have p: "placed s i" "placed s d" by (simp_all add: pl)
    with T2 h have le: "xOf s i \<le> xOf s d" unfolding rightOfParent_def by blast
    from G3 h have "i \<in> set ms \<Longrightarrow> d \<in> set ms" by blast
    with le H show "xOf ?s i \<le> xOf ?s d" by (auto simp: xo p)
  qed
  have 2: "belowParent ns ?s"
    using T5 unfolding belowParent_def by (simp add: pl yo)
  have 3: "firstChildAligned ns ?s"
    unfolding firstChildAligned_def
  proof (intro allI impI)
    fix q c cs assume h: "children ns q = c # cs \<and> placed ?s q \<and> placed ?s (ident c)"
    then have p: "placed s q" "placed s (ident c)" by (simp_all add: pl)
    with T3 h have eq: "xOf s (ident c) = xOf s q" "yOf s (ident c) = yOf s q + verticalSpacing"
      unfolding firstChildAligned_def by blast+
    from h have "c \<in> set (children ns q)" by simp
    then have c: "c \<in> set ns" "parentId c = Some q" by (simp_all add: children_def)
    from wf_descs_child [OF wf c] have cd: "ident c \<in> set (descs ns q)" .
    have "ident c \<in> set ms \<longleftrightarrow> q \<in> set ms"
    proof
      assume "q \<in> set ms"
      from G3 [OF this cd] show "ident c \<in> set ms" .
    next
      assume m: "ident c \<in> set ms"
      from G1 [OF m p(2) _ pp] eq have gt: "xOf s p < xOf s q" using H by simp
      have "q \<noteq> p" using gt by auto
      moreover have "q \<notin> set (descs ns p)"
      proof
        assume "q \<in> set (descs ns p)"
        with wf_descs_closed [OF wf c, of p] have "ident c \<in> set (descs ns p)" by simp
        from inP [OF p(2)] this m show False by simp
      qed
      ultimately show "q \<in> set ms" using G2 [OF p(1)] gt by blast
    qed
    with eq show "xOf ?s (ident c) = xOf ?s q \<and> yOf ?s (ident c) = yOf ?s q + verticalSpacing"
      by (simp add: xo p yo)
  qed
  have 4: "siblingsApart ns ?s"
    unfolding siblingsApart_def
  proof (intro allI impI)
    fix q i j u v
    assume h: "i < j \<and> j < length (children ns q) \<and>
        u \<in> set (branchIds ns (children ns q ! i)) \<and> v \<in> set (branchIds ns (children ns q ! j)) \<and>
        placed ?s u \<and> placed ?s v"
    then have p: "placed s u" "placed s v" by (simp_all add: pl)
    with T4 h have le: "xOf s u + horizontalSpacing \<le> xOf s v" unfolding siblingsApart_def by blast
    have "v \<in> set ms" if m: "u \<in> set ms"
    proof (rule ccontr)
      assume n: "v \<notin> set ms"
      from G1 [OF m p(1) _ pp] le H have gt: "xOf s p < xOf s v" by simp
      with G2 [OF p(2)] n have "v = p \<or> v \<in> set (descs ns p)" by blast
      from G1 [OF m p(1) this p(2)] le H show False by simp
    qed
    with le H show "xOf ?s u + horizontalSpacing \<le> xOf ?s v" by (auto simp: xo p)
  qed
  from t have "distinct (map fst ?s)" "fst ` set ?s \<subseteq> ident ` set ns"
    using shiftIds_keys [of horizontalSpacing ms s] by (simp_all add: tidy_def flip: set_map)
  with 1 2 3 4 show ?thesis by (simp add: tidy_def)
qed

lemma findIndex_append_last:
  "\<forall>x \<in> set xs. \<not> P x \<Longrightarrow> P y \<Longrightarrow> findIndex P (xs @ [y]) = int (length xs)"
  by (induction xs) (auto simp: Let_def)

lemma siblingIndexOf_snoc:
  assumes wf: "parentsFirst (ns @ [w])" and par: "parentId w = Some p"
  shows "siblingIndexOf w (ns @ [w]) = int (length (children ns p))"
proof -
  have "filter (\<lambda>n. parentId n = parentId w) (ns @ [w]) = children ns p @ [w]"
    using par by (simp add: children_def)
  moreover have "\<forall>x \<in> set (children ns p). ident x \<noteq> ident w"
    using wf by (auto simp: parentsFirst_snoc children_def image_iff)
  ultimately show ?thesis by (simp add: siblingIndexOf_def findIndex_append_last)
qed

lemma collisionPass_free:
  "\<forall>e \<in> set ks. \<forall>pos. map_of s e = Some pos \<longrightarrow> e = nk \<or> \<not> wouldOverlap d pos \<Longrightarrow>
   collisionPass nk d ns ks s h = Some (s, h)"
  by (induction ks) (auto split: option.splits)

lemma resolveCollisions_free:
  "\<forall>e pos. map_of s e = Some pos \<longrightarrow> e = nk \<or> \<not> wouldOverlap d pos \<Longrightarrow>
   resolveCollisions k nk d ns s = Some s"
  by (cases k) (simp_all add: collisionPass_free)

lemma rightOf_D: "rightOf s p S \<Longrightarrow> placed s (ident S) \<and> placed s p \<and> xOf s p < xOf s (ident S)"
  by (auto simp: rightOf_def placed_def xOf_def split: option.splits)

lemma rightOf_I: "placed s (ident S) \<Longrightarrow> placed s p \<Longrightarrow> xOf s p < xOf s (ident S) \<Longrightarrow> rightOf s p S"
  by (auto simp: rightOf_def placed_def xOf_def split: option.splits)

lemma self_in_branch: "ident S \<in> set (branchIds ns S)"
  by (simp add: branchIds_def)

lemma sibling_indices:
  assumes wf: "parentsFirst N" and sr: "singleRoot N" and A: "A \<in> set N" and S: "S \<in> set (siblingsOf N A)"
  obtains q i j where "i \<noteq> j" "i < length (children N q)" "j < length (children N q)"
    "children N q ! i = S" "children N q ! j = A"
proof -
  from S have S': "S \<in> set N" "parentId S = parentId A" "ident S \<noteq> ident A"
    by (auto simp: siblingsOf_def)
  have "parentId A \<noteq> None"
  proof
    assume "parentId A = None"
    with S'(2) have "parentId S = None" by simp
    from singleRoot_root [OF sr S'(1) this] singleRoot_root [OF sr A \<open>parentId A = None\<close>]
    have "S = A" by metis
    with S'(3) show False by blast
  qed
  then obtain q where q: "parentId A = Some q" by auto
  with A S' have "A \<in> set (children N q)" "S \<in> set (children N q)" by (simp_all add: children_mem)
  from child_index [OF this(1)] child_index [OF this(2)] obtain j i where
    ij: "j < length (children N q)" "children N q ! j = A" "i < length (children N q)" "children N q ! i = S"
    by blast
  moreover have "i \<noteq> j" using S'(3) ij by auto
  ultimately show thesis using that by blast
qed

lemma moved_right_of_branch:
  assumes wf: "parentsFirst N" and sr: "singleRoot N" and t: "tidy N s"
    and w: "w \<in> set N" and par: "parentId w = Some p"
    and m: "u \<in> set (concat (map (branchIds N) (displacedSiblings N s p w)))" and pu: "placed s u"
    and a: "a = p \<or> a \<in> set (descs N p)" and pa: "placed s a"
  shows "xOf s a + horizontalSpacing \<le> xOf s u"
proof -
  from t have T4: "siblingsApart N s" by (simp add: tidy_def)
  from m obtain A S where AS: "A \<in> set (ancestorsUp (Suc (length N)) N w)" "S \<in> set (siblingsOf N A)"
    "rightOf s p S" "u \<in> set (branchIds N S)" by (rule moved_cases)
  from ancestorsUp_facts [OF wf w AS(1)] have A: "A \<in> set N" "ident w \<in> set (descs N (ident A))" by auto
  from wf_descs_node [OF wf w A(2)] par have pA: "p \<in> set (branchIds N A)" by (auto simp: branchIds_def)
  with a branch_trans [OF wf] have aA: "a \<in> set (branchIds N A)" by blast
  from sibling_indices [OF wf sr A(1) AS(2)] obtain q i j where q: "i \<noteq> j"
    "i < length (children N q)" "j < length (children N q)" "children N q ! i = S" "children N q ! j = A"
    by blast
  from rightOf_D [OF AS(3)] have r: "placed s (ident S)" "placed s p" "xOf s p < xOf s (ident S)" by simp_all
  have "\<not> i < j"
  proof
    assume "i < j"
    with T4 q pA r self_in_branch [of S N] have "xOf s (ident S) + horizontalSpacing \<le> xOf s p"
      unfolding siblingsApart_def by blast
    with r(3) show False by (simp add: horizontalSpacing_def)
  qed
  with q(1) have "j < i" by simp
  with T4 q aA AS(4) pa pu show ?thesis unfolding siblingsApart_def by blast
qed

lemma right_of_parent_moved:
  assumes wf: "parentsFirst (ns @ [w])" and sr: "singleRoot (ns @ [w])" and t: "tidy (ns @ [w]) s"
    and par: "parentId w = Some p" and pp: "placed s p"
    and un: "\<not> placed s (ident w)" and all: "\<forall>n \<in> set ns. placed s (ident n)"
    and pu: "placed s u" and up: "u \<noteq> p" and ud: "u \<notin> set (descs (ns @ [w]) p)"
    and gt: "xOf s p < xOf s u"
  shows "u \<in> set (concat (map (branchIds (ns @ [w])) (displacedSiblings (ns @ [w]) s p w)))"
proof -
  let ?N = "ns @ [w]"
  from t have T4: "siblingsApart ?N s" and T2: "rightOfParent ?N s" by (simp_all add: tidy_def)
  have w: "w \<in> set ?N" by simp
  from tidy_keys [OF t pu] obtain U where U: "U \<in> set ?N" "ident U = u" by blast
  from tidy_keys [OF t pp] obtain P where P: "P \<in> set ?N" "ident P = p" by blast
  have 1: "ident U \<notin> set (branchIds ?N P)" using U P up ud by (simp add: branchIds_def)
  have 2: "ident P \<notin> set (branchIds ?N U)"
  proof
    assume "ident P \<in> set (branchIds ?N U)"
    with U P up have "p \<in> set (descs ?N u)" by (auto simp: branchIds_def)
    with T2 pu pp have "xOf s u \<le> xOf s p" unfolding rightOfParent_def by blast
    with gt show False by simp
  qed
  from lca [OF wf sr U(1) P(1) 1 2] U(2) P(2) obtain q i j where q: "i \<noteq> j"
    "i < length (children ?N q)" "j < length (children ?N q)"
    "u \<in> set (branchIds ?N (children ?N q ! i))" "p \<in> set (branchIds ?N (children ?N q ! j))"
    by blast
  have "\<not> i < j"
  proof
    assume "i < j"
    with T4 q pu pp have "xOf s u + horizontalSpacing \<le> xOf s p" unfolding siblingsApart_def by blast
    with gt show False by (simp add: horizontalSpacing_def)
  qed
  with q(1) have ji: "j < i" by simp
  let ?A = "children ?N q ! j" and ?S = "children ?N q ! i"
  from q(2,3) have "?A \<in> set (children ?N q)" "?S \<in> set (children ?N q)" by simp_all
  then have A: "?A \<in> set ?N" "parentId ?A = Some q" and S: "?S \<in> set ?N" "parentId ?S = Some q"
    by (simp_all only: children_mem)
  from parentsFirst_distinct [OF wf] have "distinct ?N" by (rule distinct_map [THEN iffD1, THEN conjunct1])
  then have "distinct (children ?N q)" unfolding children_def by (rule distinct_filter)
  with q(1,2,3) have "?S \<noteq> ?A" by (simp add: nth_eq_iff_index_eq)
  with wf_inj_ident [OF wf S(1) A(1)] have ne: "ident ?S \<noteq> ident ?A" by blast
  have "p \<in> set (ident ?A # descs ?N (ident ?A))" using q(5) by (simp add: branchIds_def)
  from wf_descs_closed [OF wf w par this] have wA: "ident w \<in> set (descs ?N (ident ?A))" .
  have nep: "\<forall>n \<in> set ?N. \<forall>m \<in> set ?N. parentId n = Some (ident m) \<longrightarrow> ident m \<noteq> []"
    using singleRoot_no_empty_parent [OF sr] by metis
  have chain: "?A \<in> set (ancestorsUp (Suc (length ?N)) ?N w)"
    by (rule chain_complete [OF wf nep A(1), of ns w "[]"]) (simp_all add: wA)
  have sib: "?S \<in> set (siblingsOf ?N ?A)" using S A ne by (metis siblingsOf_mem)
  have "?S \<noteq> w"
  proof
    assume "?S = w"
    with q(4) have "u = ident w" by (simp add: branchIds_def snoc_descs_new [OF wf])
    with pu un show False by simp
  qed
  with S(1) all have pS: "placed s (ident ?S)" by auto
  from T4 ji q(2) q(5) self_in_branch [of ?S ?N] pp pS
  have "xOf s p + horizontalSpacing \<le> xOf s (ident ?S)" unfolding siblingsApart_def by blast
  then have "xOf s p < xOf s (ident ?S)" by (simp add: horizontalSpacing_def)
  from moved_intro [OF chain sib rightOf_I [OF pS pp this] q(4)] show ?thesis .
qed

lemma moved_closed:
  assumes wf: "parentsFirst N"
    and m: "i \<in> set (concat (map (branchIds N) (displacedSiblings N s p w)))"
    and d: "d \<in> set (descs N i)"
  shows "d \<in> set (concat (map (branchIds N) (displacedSiblings N s p w)))"
proof -
  from m obtain A S where AS: "A \<in> set (ancestorsUp (Suc (length N)) N w)" "S \<in> set (siblingsOf N A)"
    "rightOf s p S" "i \<in> set (branchIds N S)" by (rule moved_cases)
  from moved_intro [OF AS(1,2,3) branch_trans [OF wf AS(4) d]] show ?thesis .
qed

lemma rightmost_set:
  "set (map fst (List.map_filter (map_of s) ds)) = xOf s ` {d \<in> set ds. placed s d}"
  by (force simp: map_filter_def placed_def xOf_def image_iff)

lemma rightmost_ge:
  "a = p \<or> (a \<in> set ds \<and> placed s a) \<Longrightarrow>
   xOf s a \<le> Max (set (xOf s p # map fst (List.map_filter (map_of s) ds)))"
  by (intro Max_ge) (auto simp: rightmost_set simp del: set_map)

lemma rightmost_attained:
  "\<exists>a. (a = p \<or> (a \<in> set ds \<and> placed s a)) \<and>
       xOf s a = Max (set (xOf s p # map fst (List.map_filter (map_of s) ds)))"
proof -
  let ?X = "set (xOf s p # map fst (List.map_filter (map_of s) ds))"
  have "Max ?X \<in> ?X" by (intro Max_in) simp_all
  then show ?thesis by (auto simp: rightmost_set simp del: set_map)
qed

lemma child_row:
  assumes t: "tidy ns s" and all: "\<forall>n \<in> set ns. placed s (ident n)" and pp: "placed s p"
  shows "i < length (children ns p) \<Longrightarrow>
         xOf s p + int i * horizontalSpacing \<le> xOf s (ident (children ns p ! i))"
proof (induction i)
  case 0
  from t have T3: "firstChildAligned ns s" by (simp add: tidy_def)
  from 0 obtain c cs where c: "children ns p = c # cs" by (cases "children ns p") auto
  then have "c \<in> set (children ns p)" by simp
  then have "c \<in> set ns" by (simp only: children_mem)
  with all have "placed s (ident c)" by blast
  with T3 c pp have "xOf s (ident c) = xOf s p" unfolding firstChildAligned_def by blast
  with c show ?case by simp
next
  case (Suc i)
  from t have T4: "siblingsApart ns s" by (simp add: tidy_def)
  let ?a = "children ns p ! i" and ?b = "children ns p ! Suc i"
  from Suc.prems have "?a \<in> set (children ns p)" "?b \<in> set (children ns p)" by simp_all
  then have "?a \<in> set ns" "?b \<in> set ns" by (simp_all only: children_mem)
  with all have pl: "placed s (ident ?a)" "placed s (ident ?b)" by blast+
  have "i < Suc i" by simp
  with T4 Suc.prems pl self_in_branch [of ?a ns] self_in_branch [of ?b ns]
  have "xOf s (ident ?a) + horizontalSpacing \<le> xOf s (ident ?b)" unfolding siblingsApart_def by blast
  moreover from Suc.IH Suc.prems have "xOf s p + int i * horizontalSpacing \<le> xOf s (ident ?a)" by simp
  ultimately show ?case by (simp add: algebra_simps)
qed

lemma no_overlap_candidate:
  assumes wf: "parentsFirst N" and sr: "singleRoot N" and t: "tidy N (s @ [(k, c)])" and un: "\<not> placed s k"
  shows "\<forall>e pos. map_of s e = Some pos \<longrightarrow> e = k \<or> \<not> wouldOverlap c pos"
proof (intro allI impI)
  fix e pos assume e: "map_of s e = Some pos"
  from placed_xOf [OF e] un have ne: "e \<noteq> k" by blast
  from e have 1: "map_of (s @ [(k, c)]) e = Some pos" by (simp add: map_add_def)
  from un have "map_of s k = None" unfolding placed_def by blast
  then have 2: "map_of (s @ [(k, c)]) k = Some c" by (simp add: map_add_def)
  from tidy_no_overlap [OF wf sr t 2 1] ne show "e = k \<or> \<not> wouldOverlap c pos" by blast
qed

lemma placeNode_first_tidy:
  assumes wf: "parentsFirst (ns @ [w])" and sr: "singleRoot (ns @ [w])" and t: "tidy ns s"
    and par: "parentId w = Some p" and p0: "p \<noteq> []" and pp: "placed s p"
    and kids: "children ns p = []"
  shows "\<exists>s2. placeNode (ns @ [w]) w s = Some s2 \<and> tidy (ns @ [w]) s2 \<and>
              (\<forall>k. placed s2 k \<longleftrightarrow> placed s k \<or> k = ident w)"
proof -
  let ?N = "ns @ [w]" and ?c = "(xOf s p, yOf s p + verticalSpacing)"
  let ?s2 = "s @ [(ident w, ?c)]"
  from t have T4: "siblingsApart ns s" by (simp add: tidy_def)
  from wf have pf: "parentsFirst ns" by (simp add: parentsFirst_snoc)
  have d0: "descs ns p = []" using kids wf_descs_unfold [OF pf, of p] by simp
  have t2: "tidy ?N ?s2"
  proof (rule tidy_extend [OF wf t par pp])
    show "xOf s p = xOf s p" by simp
  next
    show "xOf s p \<le> xOf s p" by simp
  next
    fix u assume "u \<in> set (descs ns p)"
    with d0 show "xOf s u + horizontalSpacing \<le> xOf s p" by simp
  next
    fix q i j v
    assume "i < j" "j < length (children ns q)" "p \<in> set (branchIds ns (children ns q ! i))"
      "v \<in> set (branchIds ns (children ns q ! j))" "placed s v"
    with T4 pp show "xOf s p + horizontalSpacing \<le> xOf s v" unfolding siblingsApart_def by blast
  next
    fix q i j u
    assume "i < j" "j < length (children ns q)" "u \<in> set (branchIds ns (children ns q ! i))"
      "p \<in> set (branchIds ns (children ns q ! j))" "placed s u"
    with T4 pp show "xOf s u + horizontalSpacing \<le> xOf s p" unfolding siblingsApart_def by blast
  qed
  from snoc_fresh [OF wf t] have un: "\<not> placed s (ident w)" by blast
  from resolveCollisions_free [OF no_overlap_candidate [OF wf sr t2 un]]
  have rc: "resolveCollisions maxIterations (ident w) ?c ?N s = Some s" .
  have si: "siblingIndexOf w ?N = 0" using siblingIndexOf_snoc [OF wf par] kids by simp
  from pp have mp: "map_of s p = Some (xOf s p, yOf s p)" by (rule placed_map_of)
  from un have mw: "map_of s (ident w) = None" unfolding placed_def by blast
  have "placeNode ?N w s = Some ?s2"
    by (simp add: placeNode_def mw par p0 mp si rc update_absent)
  with t2 placed_append [OF un] show ?thesis by blast
qed

lemma placeNode_branch_tidy:
  assumes wf: "parentsFirst (ns @ [w])" and sr: "singleRoot (ns @ [w])" and t: "tidy ns s"
    and par: "parentId w = Some p" and p0: "p \<noteq> []" and pp: "placed s p"
    and all: "\<forall>n \<in> set ns. placed s (ident n)" and kids: "children ns p \<noteq> []"
  shows "\<exists>s2. placeNode (ns @ [w]) w s = Some s2 \<and> tidy (ns @ [w]) s2 \<and>
              (\<forall>k. placed s2 k \<longleftrightarrow> placed s k \<or> k = ident w)"
proof -
  let ?N = "ns @ [w]"
  let ?M = "concat (map (branchIds ?N) (displacedSiblings ?N s p w))"
  let ?s1 = "shiftIds horizontalSpacing ?M s"
  define rm where "rm = Max (set (xOf s p # map fst (List.map_filter (map_of s) (descs ?N p))))"
  let ?c = "(rm + horizontalSpacing, yOf s p + verticalSpacing)"
  let ?s2 = "?s1 @ [(ident w, ?c)]"
  have H: "0 < horizontalSpacing" by (simp add: horizontalSpacing_def)
  from t have T4: "siblingsApart ns s" by (simp add: tidy_def)
  from wf have pf: "parentsFirst ns" by (simp add: parentsFirst_snoc)
  have tN: "tidy ?N s" using wf t by (rule tidy_snoc)
  have w: "w \<in> set ?N" by simp
  have dM: "distinct ?M" by (rule displaced_distinct [OF wf w par])
  from snoc_fresh [OF wf t] have un: "\<not> placed s (ident w)" by blast
  have G1: "xOf s a + horizontalSpacing \<le> xOf s u"
    if "u \<in> set ?M" "placed s u" "a = p \<or> a \<in> set (descs ?N p)" "placed s a" for u a
    using that by (rule moved_right_of_branch [OF wf sr tN w par])
  have G2: "u \<in> set ?M"
    if "placed s u" "u \<noteq> p" "u \<notin> set (descs ?N p)" "xOf s p < xOf s u" for u
    using that by (rule right_of_parent_moved [OF wf sr tN par pp un all])
  have G3: "d \<in> set ?M" if "i \<in> set ?M" "d \<in> set (descs ?N i)" for i d
    using that by (rule moved_closed [OF wf])
  have sub: "d \<in> set (descs ?N i)" if "d \<in> set (descs ns i)" for i d
    using that unfolding wf_descs_snoc [OF wf] by simp
  have dN: "d \<in> set (descs ns i)" if "d \<in> set (descs ?N i)" "placed s d" for i d
    using snoc_descs_old [OF wf that(1)] that(2) un by blast
  have t1: "tidy ns ?s1"
  proof (rule tidy_shift [OF pf t dM pp])
    fix u a assume "u \<in> set ?M" "placed s u" "a = p \<or> a \<in> set (descs ns p)" "placed s a"
    with sub show "xOf s a + horizontalSpacing \<le> xOf s u" by (intro G1) auto
  next
    fix u assume u: "placed s u" "u \<noteq> p" "u \<notin> set (descs ns p)" "xOf s p < xOf s u"
    with dN have "u \<notin> set (descs ?N p)" by blast
    with u show "u \<in> set ?M" by (intro G2)
  next
    fix i d assume "i \<in> set ?M" "d \<in> set (descs ns i)"
    with sub show "d \<in> set ?M" by (intro G3 [of i d]) auto
  qed
  have notM: "u \<notin> set ?M" if "placed s u" "u = p \<or> u \<in> set (descs ?N p)" for u
    using G1 [of u u] that H by fastforce
  have x1: "xOf ?s1 u = xOf s u + (if u \<in> set ?M then horizontalSpacing else 0)" if "placed s u" for u
    using that by (rule xOf_shiftIds [OF dM])
  have rm_ge: "xOf s a \<le> rm" if "a = p \<or> (a \<in> set (descs ?N p) \<and> placed s a)" for a
    unfolding rm_def using that by (rule rightmost_ge)
  have xp: "xOf s p \<le> rm" by (rule rm_ge) simp
  have t2': "tidy ?N (?s1 @ [(ident w, (rm + horizontalSpacing, yOf ?s1 p + verticalSpacing))])"
  proof (rule tidy_extend [OF wf t1 par])
    show "placed ?s1 p" using pp by (simp add: placed_shiftIds)
  next
    assume "children ns p = []"
    with kids show "rm + horizontalSpacing = xOf ?s1 p" by simp
  next
    from notM [OF pp] x1 [OF pp] xp H show "xOf ?s1 p \<le> rm + horizontalSpacing" by simp
  next
    fix u assume u: "u \<in> set (descs ns p)" "placed ?s1 u"
    then have pu: "placed s u" by (simp add: placed_shiftIds)
    from u(1) have uN: "u \<in> set (descs ?N p)" by (rule sub)
    with pu have "xOf s u \<le> rm" by (intro rm_ge) simp
    with notM [OF pu] uN x1 [OF pu] show "xOf ?s1 u + horizontalSpacing \<le> rm + horizontalSpacing" by simp
  next
    fix q i j v
    assume h: "i < j" "j < length (children ns q)" "p \<in> set (branchIds ns (children ns q ! i))"
      "v \<in> set (branchIds ns (children ns q ! j))" "placed ?s1 v"
    then have pv: "placed s v" by (simp add: placed_shiftIds)
    from rightmost_attained [of p "descs ?N p" s] obtain a where
      a: "a = p \<or> (a \<in> set (descs ?N p) \<and> placed s a)" "xOf s a = rm" unfolding rm_def by blast
    from a(1) pp have pa: "placed s a" by blast
    from a(1) dN have "a = p \<or> a \<in> set (descs ns p)" by blast
    with h(3) branch_trans [OF pf h(3)] have "a \<in> set (branchIds ns (children ns q ! i))" by blast
    with T4 h(1,2,4) pa pv have "xOf s a + horizontalSpacing \<le> xOf s v" unfolding siblingsApart_def by blast
    with a(2) have ge: "rm + horizontalSpacing \<le> xOf s v" by simp
    with xp H have gt: "xOf s p < xOf s v" by simp
    have "\<not> (v = p \<or> v \<in> set (descs ns p))"
    proof
      assume "v = p \<or> v \<in> set (descs ns p)"
      with h(3) branch_trans [OF pf h(3)] have "v \<in> set (branchIds ns (children ns q ! i))" by blast
      with T4 h(1,2,4) pv have "xOf s v + horizontalSpacing \<le> xOf s v" unfolding siblingsApart_def by blast
      with H show False by simp
    qed
    with dN pv have "v \<noteq> p" "v \<notin> set (descs ?N p)" by blast+
    from G2 [OF pv this gt] have "v \<in> set ?M" .
    with x1 [OF pv] ge show "rm + horizontalSpacing + horizontalSpacing \<le> xOf ?s1 v" by simp
  next
    fix q i j u
    assume h: "i < j" "j < length (children ns q)" "u \<in> set (branchIds ns (children ns q ! i))"
      "p \<in> set (branchIds ns (children ns q ! j))" "placed ?s1 u"
    then have pu: "placed s u" by (simp add: placed_shiftIds)
    with T4 h(1,2,3,4) pp have le: "xOf s u + horizontalSpacing \<le> xOf s p" unfolding siblingsApart_def by blast
    have "u \<notin> set ?M"
    proof
      assume "u \<in> set ?M"
      from G1 [OF this pu _ pp] le H show False by simp
    qed
    with x1 [OF pu] le xp H show "xOf ?s1 u + horizontalSpacing \<le> rm + horizontalSpacing" by simp
  qed
  then have t2: "tidy ?N ?s2" by (simp only: yOf_shiftIds)
  have un1: "\<not> placed ?s1 (ident w)" using un by (simp add: placed_shiftIds)
  from resolveCollisions_free [OF no_overlap_candidate [OF wf sr t2 un1]]
  have rc: "resolveCollisions maxIterations (ident w) ?c ?N ?s1 = Some ?s1" .
  let ?k = "length (children ns p)"
  have si: "siblingIndexOf w ?N = int ?k" by (rule siblingIndexOf_snoc [OF wf par])
  from kids have k0: "0 < ?k" by simp
  from pp have mp: "map_of s p = Some (xOf s p, yOf s p)" by (rule placed_map_of)
  from un have mw: "map_of s (ident w) = None" unfolding placed_def by blast
  from tidy_keys [OF t pp] obtain P where P: "P \<in> set ns" "ident P = p" by blast
  then have PN: "P \<in> set ?N" by simp
  from find_unique [OF parentsFirst_distinct [OF wf] PN] P(2)
  have fP: "find (\<lambda>n. ident n = p) ?N = Some P" by simp
  from find_unique [OF parentsFirst_distinct [OF wf] w]
  have fw: "find (\<lambda>n. ident n = ident w) ?N = Some w" .
  have last: "xOf s p + int (?k - 1) * horizontalSpacing \<le> rm"
  proof -
    let ?l = "children ns p ! (?k - 1)"
    from k0 have lk: "?k - 1 < ?k" by simp
    then have "?l \<in> set (children ns p)" by (rule nth_mem)
    then have l: "?l \<in> set ns" "parentId ?l = Some p" by (simp_all only: children_mem)
    from wf_descs_child [OF pf l] have "ident ?l \<in> set (descs ?N p)" by (rule sub)
    moreover from l(1) all have "placed s (ident ?l)" by blast
    ultimately have "xOf s (ident ?l) \<le> rm" by (intro rm_ge) simp
    with child_row [OF t all pp lk] show ?thesis by simp
  qed
  from k0 obtain m where m: "?k = Suc m" by (cases "?k") auto
  have "int (?k - 1) = int ?k - 1" unfolding m by simp
  with last have "xOf s p + int ?k * horizontalSpacing \<le> rm + horizontalSpacing"
    by (simp add: algebra_simps)
  then have mx: "max (xOf s p + int ?k * horizontalSpacing) (rm + horizontalSpacing) = rm + horizontalSpacing"
    by simp
  have gr: "getRightmostDescendantX p ?N s = Some rm"
    unfolding rm_def xOf_def by (rule wf_getRightmostDescendantX_Max [OF wf])
  have bc: "branchCandidate w p (xOf s p, yOf s p) ?N s = Some ?c"
    by (simp add: branchCandidate_def fP P(2) gr si mx)
  have pin: "p \<in> ident ` set ?N" using PN P(2) by blast
  have sa: "shiftAllAncestorSiblings (ident w) ?N s = Some ?s1"
    using shiftAllAncestorSiblings_char [OF wf fw par p0 pin] mp by simp
  have mw1: "map_of ?s1 (ident w) = None" using un1 unfolding placed_def by blast
  have nz: "int ?k \<noteq> 0" using k0 by simp
  have "placeNode ?N w s = Some ?s2"
    unfolding placeNode_def by (simp add: mw par p0 mp si kids bc sa rc update_absent [OF mw1])
  with t2 placed_append [OF un1] show ?thesis by (simp add: placed_shiftIds)
qed

section \<open>Insertion sessions on trees\<close>

lemma placeNode_root_tidy:
  assumes "parentId w = None"
  shows "placeNode [w] w [] = Some [(ident w, (0, 0))] \<and> tidy [w] [(ident w, (0, 0))]"
proof -
  have d: "descs [w] i = []" for i using assms by (intro wf_descs_leaf) simp
  have c: "children [w] q = []" for q using assms by (simp add: children_def)
  have "tidy [w] [(ident w, (0, 0))]"
    by (simp add: tidy_def rightOfParent_def belowParent_def firstChildAligned_def siblingsApart_def d c)
  moreover have "placeNode [w] w [] = Some [(ident w, (0, 0))]" using assms by (simp add: placeNode_def)
  ultimately show ?thesis by simp
qed

lemma placeAll_skip_placed:
  "\<forall>n \<in> set xs. placed s (ident n) \<Longrightarrow> placeAll N (xs @ ys) s = placeAll N ys s"
  by (induction xs) (simp_all add: placeNode_def placed_def)

lemma singleRoot_prefix:
  assumes wf: "parentsFirst (xs @ ys)" and sr: "singleRoot (xs @ ys)"
  shows "singleRoot xs"
proof (cases xs)
  case Nil
  then show ?thesis by (simp add: singleRoot_def)
next
  case (Cons r rest)
  have "\<exists>p. parentId n = Some p \<and> p \<noteq> [] \<and> p \<in> ident ` set xs" if n: "n \<in> set rest" for n
  proof -
    from sr Cons n obtain p where p: "parentId n = Some p" "p \<noteq> []" "p \<in> ident ` set (xs @ ys)"
      by (auto simp: singleRoot_def)
    then obtain m where m: "m \<in> set (xs @ ys)" "ident m = p" by auto
    from n Cons have "n \<in> set xs" by simp
    then obtain pre post where xs: "xs = pre @ n # post" by (auto dest: split_list)
    from parentsFirst_split [of pre n "post @ ys" m] wf xs p(1) m(2) have "m \<notin> set (n # post @ ys)" by auto
    with m(1) xs have "m \<in> set pre" by auto
    with xs m(2) have "p \<in> ident ` set xs" by auto
    with p show ?thesis by blast
  qed
  moreover from sr Cons have "parentId r = None" by (simp add: singleRoot_def)
  ultimately show ?thesis using Cons by (simp add: singleRoot_def)
qed

lemma layoutPass_tidy:
  assumes wf: "parentsFirst (ns @ [w])" and srt: "sorted (map timestamp (ns @ [w]))"
    and sr: "singleRoot (ns @ [w])" and t: "tidy ns s" and all: "\<forall>n \<in> set ns. placed s (ident n)"
  shows "\<exists>s'. layoutPass \<lparr>nodes = ns @ [w], activeNodeId = a\<rparr> s = Some s' \<and> tidy (ns @ [w]) s' \<and>
              (\<forall>n \<in> set (ns @ [w]). placed s' (ident n))"
proof -
  let ?N = "ns @ [w]"
  have lp: "layoutPass \<lparr>nodes = ?N, activeNodeId = a\<rparr> s
            = (case placeNode ?N w s of None \<Rightarrow> None | Some s' \<Rightarrow> Some s')"
    using placeAll_skip_placed [OF all, of ?N "[w]"]
    by (simp add: layoutPass_def sortedNodesOf_sorted [OF srt] split: option.splits)
  have "\<exists>s2. placeNode ?N w s = Some s2 \<and> tidy ?N s2 \<and>
              (\<forall>k. placed s2 k \<longleftrightarrow> placed s k \<or> k = ident w)"
  proof (cases ns)
    case Nil
    with sr have r: "parentId w = None" by (simp add: singleRoot_def)
    from t Nil have s: "s = []" by (simp add: tidy_def)
    have "placed [(ident w, (0, 0))] k \<longleftrightarrow> placed [] k \<or> k = ident w" for k
      by (simp add: placed_def)
    with placeNode_root_tidy [OF r] show ?thesis unfolding Nil s by simp
  next
    case (Cons r rest)
    with sr obtain p where p: "parentId w = Some p" "p \<noteq> []" "p \<in> ident ` set ?N"
      by (auto simp: singleRoot_def)
    from wf p(1) have "p \<noteq> ident w" by (auto simp: parentsFirst_snoc)
    with p(3) have "p \<in> ident ` set ns" by auto
    with all have pp: "placed s p" by auto
    show ?thesis
    proof (cases "children ns p = []")
      case True
      from placeNode_first_tidy [OF wf sr t p(1,2) pp True] show ?thesis .
    next
      case False
      from placeNode_branch_tidy [OF wf sr t p(1,2) pp all False] show ?thesis .
    qed
  qed
  then obtain s2 where s2: "placeNode ?N w s = Some s2" "tidy ?N s2"
    "\<And>k. placed s2 k \<longleftrightarrow> placed s k \<or> k = ident w" by blast
  from s2(3) all have "\<forall>n \<in> set ?N. placed s2 (ident n)" by auto
  with s2(1,2) lp show ?thesis by simp
qed

lemma layoutAfterEach_tidy:
  "parentsFirst (present @ pending) \<Longrightarrow> sorted (map timestamp (present @ pending)) \<Longrightarrow>
   singleRoot (present @ pending) \<Longrightarrow> tidy present s \<Longrightarrow> \<forall>n \<in> set present. placed s (ident n) \<Longrightarrow>
   \<exists>s'. layoutAfterEach present pending s = Some s' \<and> tidy (present @ pending) s' \<and>
        (\<forall>n \<in> set (present @ pending). placed s' (ident n))"
proof (induction pending arbitrary: present s)
  case Nil
  then show ?case by simp
next
  case (Cons n rest)
  let ?p = "present @ [n]"
  have eq: "present @ n # rest = ?p @ rest" by simp
  from Cons.prems(1) have wf: "parentsFirst ?p"
    using parentsFirst_prefix [of ?p rest] by simp
  from Cons.prems(2) have srt: "sorted (map timestamp ?p)"
    by (simp add: sorted_append)
  from singleRoot_prefix [of ?p rest] Cons.prems(1,3) have sr: "singleRoot ?p" by simp
  from layoutPass_tidy [OF wf srt sr Cons.prems(4,5), of "Some (ident n)"] obtain s1 where
    s1: "layoutPass \<lparr>nodes = ?p, activeNodeId = Some (ident n)\<rparr> s = Some s1" "tidy ?p s1"
      "\<forall>m \<in> set ?p. placed s1 (ident m)" by blast
  from Cons.IH [of ?p s1] Cons.prems(1,2,3) s1(2,3) obtain s' where
    s': "layoutAfterEach ?p rest s1 = Some s'" "tidy (?p @ rest) s'"
      "\<forall>m \<in> set (?p @ rest). placed s' (ident m)" unfolding eq by blast
  from s1(1) s' show ?case unfolding eq by simp
qed

lemma tidy_empty: "tidy [] []"
  by (simp add: tidy_def rightOfParent_def belowParent_def firstChildAligned_def siblingsApart_def
        wf_descs_leaf children_def)

lemma session_tidy:
  assumes "parentsFirst ns" and "sorted (map timestamp ns)" and "singleRoot ns"
  shows "\<exists>s. layoutAfterEach [] ns [] = Some s \<and> tidy ns s \<and> (\<forall>n \<in> set ns. placed s (ident n))"
  using layoutAfterEach_tidy [of "[]" ns "[]"] assms tidy_empty by simp

lemma first_child_head:
  assumes wf: "parentsFirst ns" and n: "n \<in> set ns" and par: "parentId n = Some p"
    and rank: "siblingRank ns n = 0"
  shows "\<exists>cs. children ns p = n # cs"
proof -
  let ?P = "\<lambda>m. ident m \<noteq> ident n"
  let ?pre = "takeWhile ?P ns"
  have "dropWhile ?P ns \<noteq> []" using n by (auto simp: dropWhile_eq_Nil_conv)
  then obtain x post where dw: "dropWhile ?P ns = x # post" by (cases "dropWhile ?P ns") auto
  from hd_dropWhile [of ?P ns] dw have "ident x = ident n" by simp
  moreover have "x \<in> set ns" using set_dropWhileD [of x ?P ns] dw by simp
  ultimately have "x = n" using wf_inj_ident [OF wf _ n] by blast
  with dw have ns: "ns = ?pre @ n # post" using takeWhile_dropWhile_id [of ?P ns] by simp
  from rank par have "filter (\<lambda>m. parentId m = Some p) ?pre = []" by (simp add: siblingRank_def)
  then have "children ns p = n # filter (\<lambda>m. parentId m = Some p) post"
    unfolding children_def by (subst ns) (simp add: par)
  then show ?thesis by blast
qed

text \<open>
  C1, for trees: a snapshot with one root (its first node is the only parentless one, and
  the parent id of every other node is the non-empty id of a node) with unique ids, parents
  before children and in creation order, built from the empty snapshot and the empty store
  by inserting its nodes one at a time with a layout pass after each insertion.  Every pass
  returns; at the end every node has exactly one entry, and no two entries of different
  nodes overlap in the sense of \<open>wouldOverlap\<close>.
\<close>

theorem insertion_session_has_no_overlap:
  assumes "parentsFirst ns" and "sorted (map timestamp ns)" and "singleRoot ns"
  shows "\<exists>s. layoutAfterEach [] ns [] = Some s \<and>
             distinct (map fst s) \<and> fst ` set s = ident ` set ns \<and>
             (\<forall>u v a b. map_of s u = Some a \<and> map_of s v = Some b \<and> u \<noteq> v \<longrightarrow> \<not> wouldOverlap a b)"
proof -
  from session_tidy [OF assms] obtain s where s: "layoutAfterEach [] ns [] = Some s" "tidy ns s"
    "\<forall>n \<in> set ns. placed s (ident n)" by blast
  from s(2) have d: "distinct (map fst s)" and sub: "fst ` set s \<subseteq> ident ` set ns" by (simp_all add: tidy_def)
  have "ident ` set ns \<subseteq> fst ` set s"
  proof
    fix k assume "k \<in> ident ` set ns"
    with s(3) have "placed s k" by auto
    then show "k \<in> fst ` set s" by (simp add: placed_def map_of_eq_None_iff)
  qed
  with sub have k: "fst ` set s = ident ` set ns" by blast
  have "\<not> wouldOverlap a b" if "map_of s u = Some a" "map_of s v = Some b" "u \<noteq> v" for u v a b
    using tidy_no_overlap [OF assms(1,3) s(2) that] .
  with s(1) d k show ?thesis by blast
qed

text \<open>
  C1 as stated fails for a forest: two parentless nodes inserted one after the other are
  both locked at the origin, and equal positions overlap.
\<close>

theorem two_roots_overlap:
  "layoutAfterEach [] (take 2 twoRoots) [] = Some [(''r1'', (0, 0)), (''r2'', (0, 0))] \<and>
   wouldOverlap (0, 0) (0, 0)"
  by code_simp

lemma exampleNodes_tree: "sorted (map timestamp exampleNodes) \<and> singleRoot exampleNodes"
  by (simp add: exampleNodes_def singleRoot_def)

theorem insertion_session_has_no_overlap_witness:
  "parentsFirst exampleNodes \<and> sorted (map timestamp exampleNodes) \<and> singleRoot exampleNodes \<and>
   layoutAfterEach [] exampleNodes [] = Some exampleStore \<and>
   \<not> wouldOverlap (0, 180) (450, 180) \<and> \<not> wouldOverlap (0, 180) (0, 360)"
proof -
  note h = exampleNodes_wf exampleNodes_tree [THEN conjunct1] exampleNodes_tree [THEN conjunct2]
  from insertion_session_has_no_overlap [OF h] obtain s where
    x: "layoutAfterEach [] exampleNodes [] = Some s \<and>
        distinct (map fst s) \<and> fst ` set s = ident ` set exampleNodes \<and>
        (\<forall>u v a b. map_of s u = Some a \<and> map_of s v = Some b \<and> u \<noteq> v \<longrightarrow> \<not> wouldOverlap a b)" ..
  note s = x [THEN conjunct1]
  note no = x [THEN conjunct2, THEN conjunct2, THEN conjunct2, rule_format]
  from s have e: "s = exampleStore" by (simp add: exampleNodes_session)
  have 1: "\<not> wouldOverlap (0, 180) (450, 180)"
    by (rule no [of "''A''" _ "''B''"]) (simp add: e exampleStore_def)
  have 2: "\<not> wouldOverlap (0, 180) (0, 360)"
    by (rule no [of "''A''" _ "''A1''"]) (simp add: e exampleStore_def)
  from s e have 3: "layoutAfterEach [] exampleNodes [] = Some exampleStore" by (rule subst [where P = "\<lambda>t. layoutAfterEach [] exampleNodes [] = Some t", rotated])
  from h 3 1 2 show ?thesis by (intro conjI)
qed

text \<open>
  C3, for trees: after such a session on a snapshot with one root, every node that is the
  first of its parent's children in creation order (sibling rank 0) has an entry with the
  \<open>x\<close> of its parent's entry and with the parent's \<open>y\<close> plus \<open>verticalSpacing\<close>.
\<close>

theorem first_child_straight_below_parent:
  assumes "parentsFirst ns" and "sorted (map timestamp ns)" and "singleRoot ns"
  shows "\<exists>s. layoutAfterEach [] ns [] = Some s \<and>
             (\<forall>n \<in> set ns. \<forall>p. parentId n = Some p \<and> siblingRank ns n = 0 \<longrightarrow>
                (\<exists>parentPos. map_of s p = Some parentPos \<and>
                   map_of s (ident n) = Some (fst parentPos, snd parentPos + verticalSpacing)))"
proof -
  from session_tidy [OF assms] obtain s where s: "layoutAfterEach [] ns [] = Some s" "tidy ns s"
    "\<forall>n \<in> set ns. placed s (ident n)" by blast
  from s(2) have T3: "firstChildAligned ns s" by (simp add: tidy_def)
  have "\<exists>parentPos. map_of s p = Some parentPos \<and>
          map_of s (ident n) = Some (fst parentPos, snd parentPos + verticalSpacing)"
    if n: "n \<in> set ns" and par: "parentId n = Some p" and rank: "siblingRank ns n = 0" for n p
  proof -
    from first_child_head [OF assms(1) n par rank] obtain cs where c: "children ns p = n # cs" by blast
    from singleRoot_parent [OF assms(3) n] par obtain m where m: "m \<in> set ns" "ident m = p" by auto
    with s(3) have pp: "placed s p" by auto
    from s(3) n have pn: "placed s (ident n)" by blast
    from T3 c pp pn have "xOf s (ident n) = xOf s p" "yOf s (ident n) = yOf s p + verticalSpacing"
      unfolding firstChildAligned_def by blast+
    with placed_map_of [OF pp] placed_map_of [OF pn] show ?thesis by simp
  qed
  with s(1) show ?thesis by blast
qed

text \<open>
  C3 as stated fails for a forest: with two roots \<open>r1\<close>, \<open>r2\<close>, a first child \<open>a\<close> of \<open>r1\<close>
  and then a first child \<open>b\<close> of \<open>r2\<close>, the candidate of \<open>b\<close> collides with \<open>a\<close>, which is
  shifted right: at the end \<open>a\<close> has \<open>x = 450\<close> and its parent \<open>r1\<close> has \<open>x = 0\<close>.
\<close>

theorem first_child_shifted_in_forest:
  "layoutAfterEach [] twoRoots []
   = Some [(''r1'', (0, 0)), (''r2'', (0, 0)), (''a'', (450, 180)), (''b'', (0, 180))] \<and>
   siblingRank twoRoots \<lparr>ident = ''a'', parentId = Some ''r1'', timestamp = 2\<rparr> = 0"
  by code_simp

theorem first_child_straight_below_parent_witness:
  "parentsFirst exampleNodes \<and> sorted (map timestamp exampleNodes) \<and> singleRoot exampleNodes \<and>
   \<lparr>ident = ''A1'', parentId = Some ''A'', timestamp = 3\<rparr> \<in> set exampleNodes \<and>
   siblingRank exampleNodes \<lparr>ident = ''A1'', parentId = Some ''A'', timestamp = 3\<rparr> = 0 \<and>
   (\<exists>s parentPos. layoutAfterEach [] exampleNodes [] = Some s \<and> map_of s ''A'' = Some parentPos \<and>
        map_of s ''A1'' = Some (fst parentPos, snd parentPos + 180))"
proof -
  let ?n = "\<lparr>ident = ''A1'', parentId = Some ''A'', timestamp = 3\<rparr>"
  note h = exampleNodes_wf exampleNodes_tree [THEN conjunct1] exampleNodes_tree [THEN conjunct2]
  have n: "?n \<in> set exampleNodes" by (simp add: exampleNodes_def)
  have r: "siblingRank exampleNodes ?n = 0" by (simp add: siblingRank_def exampleNodes_def)
  from first_child_straight_below_parent [OF h] obtain s where
    x: "layoutAfterEach [] exampleNodes [] = Some s \<and>
        (\<forall>n \<in> set exampleNodes. \<forall>p. parentId n = Some p \<and> siblingRank exampleNodes n = 0 \<longrightarrow>
                (\<exists>parentPos. map_of s p = Some parentPos \<and>
                   map_of s (ident n) = Some (fst parentPos, snd parentPos + verticalSpacing)))" ..
  note s = x [THEN conjunct1] and f = x [THEN conjunct2]
  have pa: "parentId ?n = Some ''A''" "ident ?n = ''A1''" by simp_all
  from f n r pa have "\<exists>parentPos. map_of s ''A'' = Some parentPos \<and>
                   map_of s ''A1'' = Some (fst parentPos, snd parentPos + 180)"
    unfolding verticalSpacing_def by metis
  with s have "\<exists>s parentPos. layoutAfterEach [] exampleNodes [] = Some s \<and> map_of s ''A'' = Some parentPos \<and>
        map_of s ''A1'' = Some (fst parentPos, snd parentPos + 180)" by blast
  with h n r show ?thesis by (intro conjI)
qed

end
